theory Spec2Isabelle
  imports Complex_Main "HOL-Library.Word" "HOL-Library.Sublist"
begin

unbundle bit_operations_syntax

chapter \<open>Pluto OFDM transceiver: bit-wrap codec and Reed-Solomon container\<close>

text \<open>
  A shallow embedding of \<^verbatim>\<open>src/native/Bitwrap/bitwrap.cpp\<close>,
  \<^verbatim>\<open>src/native/Bitwrap/bitunwrap.cpp\<close> and
  \<^verbatim>\<open>src/native/Rs_Container/rs_container.c\<close>.
  Files are byte lists, \<^verbatim>\<open>uint8_t\<close> is \<open>8 word\<close>; the bit vectors of the
  bit-wrap codec are lists of bytes holding 0 or 1, as \<^verbatim>\<open>std::vector<uint8_t>\<close> is used
  there. Private members of the C++ classes lose their trailing underscore and take a
  prefix (\<^verbatim>\<open>acc_\<close> is \<open>w_acc\<close>).
\<close>

type_synonym byte = "8 word"

section \<open>BitWriter (bitwrap.cpp, bitunwrap.cpp)\<close>

text \<open>
  The writer owns an accumulator byte and a bit offset; \<open>w_out\<close> is the sequence of
  bytes handed to the output stream so far. \<^verbatim>\<open>write_bit\<close> ORs the bit into position
  \<open>7 - bit_off\<close> and flushes the accumulator when the offset reaches 8.
\<close>

record BitWriter =
  w_out :: "byte list"
  w_acc :: byte
  w_bit_off :: byte

definition BitWriter_init :: BitWriter where
  "BitWriter_init = \<lparr>w_out = [], w_acc = 0, w_bit_off = 0\<rparr>"

definition flush_byte :: "BitWriter \<Rightarrow> BitWriter" where
  "flush_byte w = w\<lparr>w_out := w_out w @ [w_acc w], w_acc := 0, w_bit_off := 0\<rparr>"

definition write_bit :: "byte \<Rightarrow> BitWriter \<Rightarrow> BitWriter" where
  "write_bit b w =
     (let w1 = w\<lparr>w_acc := w_acc w OR push_bit (7 - unat (w_bit_off w)) (b AND 1)\<rparr>;
          w2 = w1\<lparr>w_bit_off := w_bit_off w1 + 1\<rparr>
      in if w_bit_off w2 = 8 then flush_byte w2 else w2)"

definition write_bits :: "byte list \<Rightarrow> BitWriter \<Rightarrow> BitWriter" where
  "write_bits bits w = fold write_bit bits w"

definition byte_bits :: "byte \<Rightarrow> byte list" where
  "byte_bits v = map (\<lambda>b. drop_bit b v AND 1) (rev [0..<8])"

primrec write_bytes_as_bits :: "byte list \<Rightarrow> BitWriter \<Rightarrow> BitWriter" where
  "write_bytes_as_bits [] w = w"
| "write_bytes_as_bits (v # bytes) w =
     write_bytes_as_bits bytes (fold (\<lambda>b. write_bit (drop_bit b v AND 1)) (rev [0..<8]) w)"

definition write_full_bytes :: "byte list \<Rightarrow> BitWriter \<Rightarrow> BitWriter" where
  "write_full_bytes bytes w =
     (if w_bit_off w = 0 then w\<lparr>w_out := w_out w @ bytes\<rparr> else write_bytes_as_bits bytes w)"

function pad_loop :: "BitWriter \<Rightarrow> BitWriter" where
  "pad_loop w = (if w_bit_off w \<noteq> 0 then pad_loop (write_bit 0 w) else w)"
  by pat_completeness auto
termination
proof (relation "measure (\<lambda>w. if w_bit_off w = 0 then 0 else 256 - unat (w_bit_off w))")
  show "wf (measure (\<lambda>w. if w_bit_off w = 0 then 0 else 256 - unat (w_bit_off w)))" by simp
next
  fix w :: BitWriter
  assume nz: "w_bit_off w \<noteq> 0"
  have lt: "unat (w_bit_off w) < 256" using unsigned_less [of "w_bit_off w", where ?'a = nat] by simp
  show "(write_bit 0 w, w) \<in> measure (\<lambda>w. if w_bit_off w = 0 then 0 else 256 - unat (w_bit_off w))"
  proof (cases "w_bit_off w + 1 = 0")
    case True
    then show ?thesis using nz lt by (simp add: write_bit_def Let_def flush_byte_def)
  next
    case False
    then have "unat (w_bit_off w + 1) = unat (w_bit_off w) + 1"
      using unatSuc [of "w_bit_off w"] by (simp add: add.commute)
    then show ?thesis using nz lt False by (auto simp add: write_bit_def Let_def flush_byte_def)
  qed
qed

definition pad_to_byte :: "BitWriter \<Rightarrow> BitWriter" where
  "pad_to_byte w = (if w_bit_off w = 0 then w else pad_loop w)"

text \<open>
  The bit sequence a byte sequence stands for, most significant bit first, and the bits a
  writer has accepted so far: the flushed bytes followed by the first \<open>bit_off\<close> bits of
  the accumulator.
\<close>

definition bits_of_bytes :: "byte list \<Rightarrow> byte list" where
  "bits_of_bytes bytes = concat (map byte_bits bytes)"

definition written_bits :: "BitWriter \<Rightarrow> byte list" where
  "written_bits w = bits_of_bytes (w_out w) @ take (unat (w_bit_off w)) (byte_bits (w_acc w))"

definition writer_ok :: "BitWriter \<Rightarrow> bool" where
  "writer_ok w = (unat (w_bit_off w) < 8 \<and> w_acc w AND mask (8 - unat (w_bit_off w)) = 0)"


lemma and_one_of_bool: "drop_bit k (v::byte) AND 1 = of_bool (bit v k)"
  by (simp add: and_one_eq bit_iff_odd_drop_bit odd_iff_mod_2_eq_one)

lemma length_byte_bits [simp]: "length (byte_bits v) = 8"
  by (simp add: byte_bits_def)

lemma byte_bits_unfold:
  "byte_bits v = [drop_bit 7 v AND 1, drop_bit 6 v AND 1, drop_bit 5 v AND 1, drop_bit 4 v AND 1,
                  drop_bit 3 v AND 1, drop_bit 2 v AND 1, drop_bit 1 v AND 1, v AND 1]"
proof -
  have "rev [0..<8::nat] = [7, 6, 5, 4, 3, 2, 1, 0]" by code_simp
  then show ?thesis by (simp add: byte_bits_def)
qed

lemma byte_bits_nth: "i < 8 \<Longrightarrow> byte_bits v ! i = of_bool (bit v (7 - i))"
  by (simp add: byte_bits_def rev_nth and_one_of_bool)

lemma bit_acc_or:
  assumes n: "n < 8" and i: "i \<le> n" and z: "(a::byte) AND mask (8 - n) = 0"
  shows "bit (a OR push_bit (7 - n) (b AND 1)) (7 - i) = (if i < n then bit a (7 - i) else bit b 0)"
proof -
  have nb: "\<not> bit a (7 - n)"
  proof
    assume "bit a (7 - n)"
    moreover have "7 - n < 8 - n" using n by arith
    ultimately have "bit (a AND mask (8 - n)) (7 - n)" by (simp add: bit_and_iff bit_mask_iff)
    then show False using z by simp
  qed
  have "bit (push_bit (7 - n) (b AND 1)) (7 - i) = (i = n \<and> bit b 0)"
    using n i by (auto simp: bit_push_bit_iff bit_and_iff bit_1_iff bit_exp_iff)
  then show ?thesis using nb i by (auto simp: bit_or_iff)
qed

lemma take_byte_bits_or:
  assumes n: "n < 8" and z: "(a::byte) AND mask (8 - n) = 0"
  shows "take (Suc n) (byte_bits (a OR push_bit (7 - n) (b AND 1))) = take n (byte_bits a) @ [b AND 1]"
proof (rule nth_equalityI)
  show "length (take (Suc n) (byte_bits (a OR push_bit (7 - n) (b AND 1)))) = length (take n (byte_bits a) @ [b AND 1])"
    using n by simp
next
  fix i assume "i < length (take (Suc n) (byte_bits (a OR push_bit (7 - n) (b AND 1))))"
  then have i: "i \<le> n" using n by simp
  have b1: "b AND 1 = of_bool (bit b 0)" using and_one_of_bool [of 0 b] by simp
  show "take (Suc n) (byte_bits (a OR push_bit (7 - n) (b AND 1))) ! i = (take n (byte_bits a) @ [b AND 1]) ! i"
    using n i bit_acc_or [OF n i z, of b]
    by (cases "i < n") (simp_all add: byte_bits_nth nth_append b1)
qed


lemma off_plus_one_8: "(x::byte) + 1 = 8 \<longleftrightarrow> x = 7"
proof
  assume "x + 1 = 8"
  then have "x = 8 - 1" by (simp add: eq_diff_eq)
  then show "x = 7" by simp
qed simp

lemma unat_off_Suc: "unat (x::byte) < 8 \<Longrightarrow> unat (x + 1) = Suc (unat x)"
proof -
  assume a: "unat x < 8"
  have "unat (x + 1) = (unat x + 1) mod 256" by (simp add: unat_word_ariths)
  then show ?thesis using a by simp
qed



lemma writer_ok_write_bit:
  assumes ok: "writer_ok w"
  shows "writer_ok (write_bit b w)"
proof -
  let ?n = "unat (w_bit_off w)"
  let ?a = "w_acc w OR push_bit (7 - ?n) (b AND 1)"
  have n: "?n < 8" and z: "w_acc w AND mask (8 - ?n) = 0" using ok by (simp_all add: writer_ok_def)
  show ?thesis
  proof (cases "w_bit_off w + 1 = 8")
    case True
    then show ?thesis by (simp add: writer_ok_def write_bit_def Let_def flush_byte_def)
  next
    case False
    have s: "unat (w_bit_off w + 1) = Suc ?n" by (rule unat_off_Suc [OF n])
    have n7: "?n \<noteq> 7"
    proof
      assume "?n = 7"
      then have "w_bit_off w = 7" by (simp add: word_unat_eq_iff)
      then show False using False by simp
    qed
    have nb: "\<not> bit (w_acc w) k" if "k < 8 - ?n" for k
    proof
      assume "bit (w_acc w) k"
      then have "bit (w_acc w AND mask (8 - ?n)) k" using that by (simp add: bit_and_iff bit_mask_iff)
      then show False using z by simp
    qed
    have "?a AND mask (7 - ?n) = 0"
    proof (rule bit_eqI)
      fix k
      have "k < 7 - ?n \<Longrightarrow> k < 8 - ?n" by arith
      then show "bit (?a AND mask (7 - ?n)) k = bit (0::byte) k"
        using nb [of k]
        by (auto simp: bit_and_iff bit_or_iff bit_mask_iff bit_push_bit_iff)
    qed
    then show ?thesis using False s n n7
      by (simp add: writer_ok_def write_bit_def Let_def flush_byte_def)
  qed
qed

lemma written_bits_write_bit:
  assumes ok: "writer_ok w"
  shows "written_bits (write_bit b w) = written_bits w @ [b AND 1]"
proof -
  let ?n = "unat (w_bit_off w)"
  have n: "?n < 8" and z: "w_acc w AND mask (8 - ?n) = 0" using ok by (simp_all add: writer_ok_def)
  have tk: "take (Suc ?n) (byte_bits (w_acc w OR push_bit (7 - ?n) (b AND 1))) = take ?n (byte_bits (w_acc w)) @ [b AND 1]"
    by (rule take_byte_bits_or [OF n z])
  show ?thesis
  proof (cases "w_bit_off w + 1 = 8")
    case True
    then have "w_bit_off w = 7" by (simp add: off_plus_one_8)
    then show ?thesis using tk
      by (simp add: written_bits_def write_bit_def Let_def flush_byte_def bits_of_bytes_def)
  next
    case False
    have "unat (w_bit_off w + 1) = Suc ?n" by (rule unat_off_Suc [OF n])
    then show ?thesis using tk False
      by (simp add: written_bits_def write_bit_def Let_def flush_byte_def bits_of_bytes_def)
  qed
qed

lemma writer_ok_fold_write_bit: "writer_ok w \<Longrightarrow> writer_ok (fold write_bit bs w)"
  by (induction bs arbitrary: w) (simp_all add: writer_ok_write_bit)

lemma written_bits_fold_write_bit:
  "writer_ok w \<Longrightarrow> written_bits (fold write_bit bs w) = written_bits w @ map (\<lambda>b. b AND 1) bs"
  by (induction bs arbitrary: w) (simp_all add: writer_ok_write_bit written_bits_write_bit)


lemma byte_bits_and_one: "map (\<lambda>b. b AND 1) (byte_bits v) = byte_bits v"
  by (simp add: byte_bits_def and.assoc comp_def)

lemma write_byte_as_bits:
  "fold (\<lambda>b. write_bit (drop_bit b v AND 1)) (rev [0..<8]) w = fold write_bit (byte_bits v) w"
  by (simp add: byte_bits_def fold_map comp_def)

lemma write_bytes_as_bits_Cons:
  "write_bytes_as_bits (v # bytes) w = write_bytes_as_bits bytes (fold write_bit (byte_bits v) w)"
  by (simp add: byte_bits_def fold_map comp_def)

lemma writer_ok_write_bytes_as_bits:
  "writer_ok w \<Longrightarrow> writer_ok (write_bytes_as_bits bytes w)"
proof (induction bytes arbitrary: w)
  case Nil
  then show ?case by simp
next
  case (Cons v bytes)
  then show ?case by (simp add: write_bytes_as_bits_Cons writer_ok_fold_write_bit del: write_bytes_as_bits.simps(2))
qed

lemma written_bits_write_bytes_as_bits:
  "writer_ok w \<Longrightarrow> written_bits (write_bytes_as_bits bytes w) = written_bits w @ bits_of_bytes bytes"
proof (induction bytes arbitrary: w)
  case Nil
  then show ?case by (simp add: bits_of_bytes_def)
next
  case (Cons v bytes)
  then show ?case
    by (simp add: write_bytes_as_bits_Cons writer_ok_fold_write_bit written_bits_fold_write_bit
        byte_bits_and_one bits_of_bytes_def del: write_bytes_as_bits.simps(2))
qed

lemma byte_bits_inj: "byte_bits a = byte_bits b \<Longrightarrow> a = b"
proof (rule bit_eqI)
  fix k assume eq: "byte_bits a = byte_bits b" and "possible_bit TYPE(byte) k"
  then have k: "k < 8" by (simp add: possible_bit_def)
  then have "7 - k < 8" and "7 - (7 - k) = k" by arith+
  then have "(of_bool (bit a k) :: byte) = of_bool (bit b k)"
    using byte_bits_nth [of "7 - k" a] byte_bits_nth [of "7 - k" b] eq by simp
  then show "bit a k = bit b k" by (simp split: if_splits add: of_bool_def)
qed

lemma length_bits_of_bytes [simp]: "length (bits_of_bytes bs) = 8 * length bs"
  by (induction bs) (simp_all add: bits_of_bytes_def)

lemma bits_of_bytes_inj: "bits_of_bytes xs = bits_of_bytes ys \<Longrightarrow> xs = ys"
proof (induction xs arbitrary: ys)
  case Nil
  then have "length (bits_of_bytes ys) = 0" by (simp add: bits_of_bytes_def)
  then show ?case by simp
next
  case (Cons x xs)
  from Cons.prems have "length (bits_of_bytes ys) = 8 * length (x # xs)"
    by (metis length_bits_of_bytes)
  then obtain y ys' where ys: "ys = y # ys'" by (cases ys) auto
  from Cons.prems ys have "byte_bits x @ bits_of_bytes xs = byte_bits y @ bits_of_bytes ys'"
    by (simp add: bits_of_bytes_def)
  then have "byte_bits x = byte_bits y" and "bits_of_bytes xs = bits_of_bytes ys'" by simp_all
  then show ?case using ys Cons.IH byte_bits_inj by blast
qed

lemma length_written_bits:
  "writer_ok w \<Longrightarrow> length (written_bits w) = 8 * length (w_out w) + unat (w_bit_off w)"
  by (simp add: written_bits_def writer_ok_def)

lemma acc_determined:
  assumes n: "n < 8" and za: "(a::byte) AND mask (8 - n) = 0" and zb: "(b::byte) AND mask (8 - n) = 0"
    and tk: "take n (byte_bits a) = take n (byte_bits b)"
  shows "a = b"
proof (rule bit_eqI)
  fix k assume "possible_bit TYPE(byte) k"
  then have k: "k < 8" by (simp add: possible_bit_def)
  show "bit a k = bit b k"
  proof (cases "k < 8 - n")
    case True
    have "\<not> bit (a AND mask (8 - n)) k" and "\<not> bit (b AND mask (8 - n)) k" using za zb by simp_all
    then show ?thesis using True k by (auto simp add: bit_and_iff bit_mask_iff)
  next
    case False
    then have i: "7 - k < n" and "7 - k < 8" and kk: "7 - (7 - k) = k" using k by arith+
    have "take n (byte_bits a) ! (7 - k) = take n (byte_bits b) ! (7 - k)" using tk by simp
    then have "(of_bool (bit a k) :: byte) = of_bool (bit b k)"
      using i kk byte_bits_nth [of "7 - k" a] byte_bits_nth [of "7 - k" b] by simp
    then show ?thesis by (simp split: if_splits add: of_bool_def)
  qed
qed

lemma writer_determined:
  assumes ok: "writer_ok w" and ok': "writer_ok w'" and eq: "written_bits w = written_bits w'"
  shows "w = w'"
proof -
  define n n' where "n = unat (w_bit_off w)" and "n' = unat (w_bit_off w')"
  have n: "n < 8" and n': "n' < 8" using ok ok' by (simp_all add: writer_ok_def n_def n'_def)
  have "length (written_bits w) = length (written_bits w')" using eq by simp
  then have len: "8 * length (w_out w) + n = 8 * length (w_out w') + n'"
    using length_written_bits [OF ok] length_written_bits [OF ok'] by (simp add: n_def n'_def)
  have nn: "n = n'" using len n n' by arith
  have off: "w_bit_off w = w_bit_off w'"
    using nn unfolding n_def n'_def by (rule word_unat_eq_iff [THEN iffD2])
  have ll: "length (bits_of_bytes (w_out w)) = length (bits_of_bytes (w_out w'))"
    using len nn by simp
  have eq': "bits_of_bytes (w_out w) @ take n (byte_bits (w_acc w))
           = bits_of_bytes (w_out w') @ take n (byte_bits (w_acc w'))"
    using eq nn unfolding written_bits_def n_def n'_def by simp
  have b: "bits_of_bytes (w_out w) = bits_of_bytes (w_out w')"
    and t: "take n (byte_bits (w_acc w)) = take n (byte_bits (w_acc w'))"
    using append_eq_append_conv [THEN iffD1, OF disjI1 [OF ll] eq'] by blast+
  have out: "w_out w = w_out w'" using b by (rule bits_of_bytes_inj)
  have za: "w_acc w AND mask (8 - n) = 0" using ok by (simp add: writer_ok_def n_def)
  have zb: "w_acc w' AND mask (8 - n) = 0" using ok' nn by (simp add: writer_ok_def n'_def)
  have acc: "w_acc w = w_acc w'" by (rule acc_determined [OF n za zb t])
  show ?thesis using out acc off by (intro BitWriter.equality) simp_all
qed

lemma write_full_bytes_as_bits:
  assumes ok: "writer_ok w"
  shows "write_full_bytes bytes w = write_bytes_as_bits bytes w"
proof (cases "w_bit_off w = 0")
  case True
  let ?f = "w\<lparr>w_out := w_out w @ bytes\<rparr>"
  have okf: "writer_ok ?f" using ok by (simp add: writer_ok_def)
  have "written_bits ?f = written_bits w @ bits_of_bytes bytes"
    using True by (simp add: written_bits_def bits_of_bytes_def)
  then have "written_bits ?f = written_bits (write_bytes_as_bits bytes w)"
    by (simp add: written_bits_write_bytes_as_bits [OF ok])
  then have "?f = write_bytes_as_bits bytes w"
    by (rule writer_determined [OF okf writer_ok_write_bytes_as_bits [OF ok]])
  then show ?thesis using True by (simp add: write_full_bytes_def)
next
  case False
  then show ?thesis by (simp add: write_full_bytes_def)
qed

lemma writer_ok_init: "writer_ok BitWriter_init"
  by (simp add: writer_ok_def BitWriter_init_def)

text \<open>
  Claim C10. For every BitWriter state whose bit offset is 0..7 and whose accumulator holds
  nothing below the offset, and every byte sequence, \<^verbatim>\<open>write_full_bytes\<close> leaves the
  writer in the very state the bit-by-bit path \<^verbatim>\<open>write_bytes_as_bits_\<close> would, and the
  bits accepted grow by exactly the bytes' bits, most significant first: the output does not
  depend on which path ran.
\<close>

theorem write_full_bytes_appends_bits:
  assumes "writer_ok w"
  shows "write_full_bytes bytes w = write_bytes_as_bits bytes w \<and>
         written_bits (write_full_bytes bytes w) = written_bits w @ bits_of_bytes bytes \<and>
         writer_ok (write_full_bytes bytes w)"
  using assms
  by (simp add: write_full_bytes_as_bits written_bits_write_bytes_as_bits writer_ok_write_bytes_as_bits)

theorem write_full_bytes_appends_bits_witness:
  "writer_ok (write_bits [1, 0, 1] BitWriter_init) \<and>
   write_full_bytes [0xAA] (write_bits [1, 0, 1] BitWriter_init)
     = write_bytes_as_bits [0xAA] (write_bits [1, 0, 1] BitWriter_init) \<and>
   written_bits (write_full_bytes [0xAA] (write_bits [1, 0, 1] BitWriter_init))
     = [1, 0, 1, 1, 0, 1, 0, 1, 0, 1, 0]"
proof -
  have st: "write_bits [1, 0, 1] BitWriter_init = \<lparr>w_out = [], w_acc = 0xA0, w_bit_off = 3\<rparr>"
    by (simp add: write_bits_def BitWriter_init_def write_bit_def Let_def flush_byte_def)
  have h: "writer_ok (write_bits [1, 0, 1] BitWriter_init)"
    unfolding st by (simp add: writer_ok_def mask_eq_exp_minus_1)
  have wb: "written_bits (write_bits [1, 0, 1] BitWriter_init) = [1, 0, 1]"
    unfolding st by (simp add: written_bits_def bits_of_bytes_def byte_bits_unfold)
  have bb: "bits_of_bytes [0xAA] = [1, 0, 1, 0, 1, 0, 1, 0]"
    by (simp add: bits_of_bytes_def byte_bits_unfold)
  note c = write_full_bytes_appends_bits [OF h, of "[0xAA]"]
  have r: "written_bits (write_full_bytes [0xAA] (write_bits [1, 0, 1] BitWriter_init))
     = [1, 0, 1, 1, 0, 1, 0, 1, 0, 1, 0]"
    unfolding c [THEN conjunct2, THEN conjunct1] wb bb by simp
  show ?thesis using h c [THEN conjunct1] r by (intro conjI)
qed


section \<open>KMP over bits (bitunwrap.cpp)\<close>

text \<open>
  \<^verbatim>\<open>BitKMP\<close> holds the pattern, its failure table \<^verbatim>\<open>lps_\<close> and the current state
  \<^verbatim>\<open>j_\<close>. Both while loops follow the failure table and terminate only because its
  entries are smaller than their index, so they are partial functions whose result
  \<open>None\<close> stands for a run that never returns; totality on the tables that \<^verbatim>\<open>reset\<close>
  builds is part of what is proved.
\<close>

record BitKMP =
  k_pat :: "byte list"
  k_lps :: "nat list"
  k_j :: nat

partial_function (option) lps_loop :: "byte list \<Rightarrow> nat list \<Rightarrow> nat \<Rightarrow> nat \<Rightarrow> nat list option" where
  "lps_loop pat lps i len =
     (if i < length pat then
        (if pat ! i = pat ! len then lps_loop pat (lps[i := Suc len]) (Suc i) (Suc len)
         else if len \<noteq> 0 then lps_loop pat lps i (lps ! (len - 1))
         else lps_loop pat (lps[i := 0]) (Suc i) len)
      else Some lps)"

declare lps_loop.simps [code]

definition reset :: "byte list \<Rightarrow> BitKMP option" where
  "reset pat = (case lps_loop pat (replicate (length pat) 0) 1 0 of
                  None \<Rightarrow> None
                | Some lps \<Rightarrow> Some \<lparr>k_pat = pat, k_lps = lps, k_j = 0\<rparr>)"

partial_function (option) feed_loop :: "byte list \<Rightarrow> nat list \<Rightarrow> byte \<Rightarrow> nat \<Rightarrow> nat option" where
  "feed_loop pat lps b j =
     (if j > 0 \<and> b \<noteq> pat ! j then feed_loop pat lps b (lps ! (j - 1)) else Some j)"

declare feed_loop.simps [code]

definition feed :: "BitKMP \<Rightarrow> byte \<Rightarrow> (bool \<times> BitKMP) option" where
  "feed k b =
     (case feed_loop (k_pat k) (k_lps k) b (k_j k) of
        None \<Rightarrow> None
      | Some j1 \<Rightarrow>
          if b = k_pat k ! j1 then
            (if Suc j1 = length (k_pat k)
             then Some (True, k\<lparr>k_j := k_lps k ! (Suc j1 - 1)\<rparr>)
             else Some (False, k\<lparr>k_j := Suc j1\<rparr>))
          else Some (False, k\<lparr>k_j := j1\<rparr>))"

definition need :: "BitKMP \<Rightarrow> nat" where
  "need k = length (k_pat k)"

fun feed_all :: "BitKMP \<Rightarrow> byte list \<Rightarrow> (bool list \<times> BitKMP) option" where
  "feed_all k [] = Some ([], k)"
| "feed_all k (b # bs) =
     (case feed k b of
        None \<Rightarrow> None
      | Some (r, k') \<Rightarrow> (case feed_all k' bs of None \<Rightarrow> None | Some (rs, k'') \<Rightarrow> Some (r # rs, k'')))"


text \<open>
  Specification vocabulary. \<open>ov p t m\<close>: the first \<open>m\<close> symbols of the pattern \<open>p\<close> end
  the text \<open>t\<close>. \<open>lov p t c\<close>: the greatest such \<open>m\<close> not above \<open>c\<close>. The failure
  function is sound (\<open>lps_ok\<close>) when entry \<open>i\<close> is the length of the longest proper
  prefix of \<open>p[0..i]\<close> that is also its suffix.
\<close>

definition ov :: "'a list \<Rightarrow> 'a list \<Rightarrow> nat \<Rightarrow> bool" where
  "ov p t m \<longleftrightarrow> m \<le> length p \<and> suffix (take m p) t"

definition lov :: "'a list \<Rightarrow> 'a list \<Rightarrow> nat \<Rightarrow> nat" where
  "lov p t c = Max {m. m \<le> c \<and> ov p t m}"

lemma ov_0 [simp]: "ov p t 0"
  by (simp add: ov_def)

lemma lov_props:
  shows lov_le: "lov p t c \<le> c" and ov_lov: "ov p t (lov p t c)"
    and lov_ge: "m \<le> c \<Longrightarrow> ov p t m \<Longrightarrow> m \<le> lov p t c"
proof -
  let ?S = "{m. m \<le> c \<and> ov p t m}"
  have fin: "finite ?S" by simp
  have ne: "?S \<noteq> {}" using ov_0 [of p t] by blast
  have "Max ?S \<in> ?S" using fin ne by (rule Max_in)
  then show "lov p t c \<le> c" and "ov p t (lov p t c)" by (simp_all add: lov_def)
  show "m \<le> c \<Longrightarrow> ov p t m \<Longrightarrow> m \<le> lov p t c"
    unfolding lov_def using fin by (intro Max_ge) simp_all
qed

lemma lov_eqI:
  assumes "x \<le> c" "ov p t x" "\<And>m. m \<le> c \<Longrightarrow> ov p t m \<Longrightarrow> m \<le> x"
  shows "lov p t c = x"
  using assms lov_le [of p t c] ov_lov [of p t c] lov_ge [of x c p t]
  by (simp add: order_antisym)

lemma ov_snoc:
  "ov p (t @ [b]) (Suc m) \<longleftrightarrow> m < length p \<and> ov p t m \<and> p ! m = b"
proof (cases "m < length p")
  case True
  then have "take (Suc m) p = take m p @ [p ! m]" by (rule take_Suc_conv_app_nth)
  then show ?thesis using True by (auto simp: ov_def)
next
  case False
  then show ?thesis by (simp add: ov_def)
qed

lemma ov_chain:
  assumes "ov p t j" "m \<le> j"
  shows "ov p t m \<longleftrightarrow> ov p (take j p) m"
proof
  assume "ov p t m"
  then have a: "suffix (take m p) t" by (simp add: ov_def)
  have b: "suffix (take j p) t" and "j \<le> length p" using assms by (simp_all add: ov_def)
  then have c: "length (take m p) \<le> length (take j p)" using assms by simp
  have "suffix (take m p) (take j p)" by (rule suffix_length_suffix [OF a b c])
  then show "ov p (take j p) m" using assms by (simp add: ov_def)
next
  assume "ov p (take j p) m"
  then have "suffix (take m p) (take j p)" by (simp add: ov_def)
  moreover have "suffix (take j p) t" using assms by (simp add: ov_def)
  ultimately have "suffix (take m p) t" by (rule suffix_order.trans)
  then show "ov p t m" using assms by (simp add: ov_def)
qed

lemma lov_chain:
  assumes "ov p t j" "c \<le> j"
  shows "lov p t c = lov p (take j p) c"
proof -
  have "{m. m \<le> c \<and> ov p t m} = {m. m \<le> c \<and> ov p (take j p) m}"
    using ov_chain [OF assms(1)] assms(2) by auto
  then show ?thesis by (simp add: lov_def)
qed

definition lps_ok :: "'a list \<Rightarrow> nat list \<Rightarrow> bool" where
  "lps_ok p lps \<longleftrightarrow> length lps = length p \<and> (\<forall>i<length p. lps ! i = lov p (take (Suc i) p) i)"


definition fb_inv :: "'a list \<Rightarrow> 'a list \<Rightarrow> 'a \<Rightarrow> nat \<Rightarrow> nat \<Rightarrow> bool" where
  "fb_inv p t b c j \<longleftrightarrow> j \<le> c \<and> ov p t j \<and> (\<forall>m. j < m \<and> m \<le> c \<and> ov p t m \<longrightarrow> p ! m \<noteq> b)"

lemma fb_inv_lov: "fb_inv p t b c (lov p t c)"
  using lov_le [of p t c] ov_lov [of p t c] lov_ge [of _ c p t]
  by (fastforce simp: fb_inv_def)

lemma fb_step:
  assumes inv: "fb_inv p t b c j" and "0 < j" and ne: "p ! j \<noteq> b"
  shows "fb_inv p t b c (lov p t (j - 1))"
proof -
  let ?j' = "lov p t (j - 1)"
  have le: "?j' \<le> j - 1" by (rule lov_le)
  have o: "ov p t ?j'" by (rule ov_lov)
  have "p ! m \<noteq> b" if m: "?j' < m" "m \<le> c" "ov p t m" for m
  proof (cases "m \<le> j - 1")
    case True
    then have "m \<le> ?j'" using m by (intro lov_ge)
    then show ?thesis using m by simp
  next
    case False
    then have "m = j \<or> j < m" using \<open>0 < j\<close> by arith
    then show ?thesis using inv ne m by (auto simp: fb_inv_def)
  qed
  moreover have "?j' \<le> c" using le inv \<open>0 < j\<close> by (auto simp: fb_inv_def)
  ultimately show ?thesis using o by (simp add: fb_inv_def)
qed

lemma fb_done_hit:
  assumes inv: "fb_inv p t b c j" and "p ! j = b" and "j < length p"
  shows "lov p (t @ [b]) (Suc c) = Suc j"
proof (rule lov_eqI)
  show "Suc j \<le> Suc c" using inv by (simp add: fb_inv_def)
  show "ov p (t @ [b]) (Suc j)" using assms by (simp add: ov_snoc fb_inv_def)
next
  fix m assume m: "m \<le> Suc c" "ov p (t @ [b]) m"
  show "m \<le> Suc j"
  proof (cases m)
    case 0
    then show ?thesis by simp
  next
    case (Suc m')
    then have "ov p t m'" "p ! m' = b" "m' \<le> c" using m by (simp_all add: ov_snoc)
    then have "\<not> j < m'" using inv by (auto simp: fb_inv_def)
    then show ?thesis using Suc by simp
  qed
qed

lemma fb_done_miss:
  assumes inv: "fb_inv p t b c 0" and "p ! 0 \<noteq> b"
  shows "lov p (t @ [b]) (Suc c) = 0"
proof (rule lov_eqI)
  fix m assume m: "m \<le> Suc c" "ov p (t @ [b]) m"
  show "m \<le> 0"
  proof (cases m)
    case 0
    then show ?thesis by simp
  next
    case (Suc m')
    then have "ov p t m'" "p ! m' = b" "m' \<le> c" using m by (simp_all add: ov_snoc)
    then have False using inv assms(2) by (cases "m' = 0") (auto simp: fb_inv_def)
    then show ?thesis ..
  qed
qed simp_all

lemma lov_pred:
  assumes "lov p t (Suc c) \<le> c"
  shows "lov p t c = lov p t (Suc c)"
proof (rule lov_eqI)
  show "lov p t (Suc c) \<le> c" by (rule assms)
  show "ov p t (lov p t (Suc c))" by (rule ov_lov)
  show "m \<le> lov p t (Suc c)" if "m \<le> c" "ov p t m" for m
    using that by (intro lov_ge) simp_all
qed

lemma lps_entry:
  assumes ok: "lps_ok p lps" and o: "ov p t j" and "0 < j"
  shows "lps ! (j - 1) = lov p t (j - 1)"
proof -
  have "j \<le> length p" using o by (simp add: ov_def)
  then have "lps ! (j - 1) = lov p (take (Suc (j - 1)) p) (j - 1)"
    using ok \<open>0 < j\<close> by (simp add: lps_ok_def)
  also have "\<dots> = lov p (take j p) (j - 1)" using \<open>0 < j\<close> by simp
  also have "\<dots> = lov p t (j - 1)" using lov_chain [OF o, of "j - 1"] by simp
  finally show ?thesis .
qed

lemma feed_loop_correct:
  assumes ok: "lps_ok p lps"
  shows "fb_inv p t b c j \<Longrightarrow>
         \<exists>j1. feed_loop p lps b j = Some j1 \<and> fb_inv p t b c j1 \<and> (j1 = 0 \<or> p ! j1 = b)"
proof (induction j rule: less_induct)
  case (less j)
  show ?case
  proof (cases "j > 0 \<and> b \<noteq> p ! j")
    case True
    let ?j' = "lps ! (j - 1)"
    have o: "ov p t j" using less.prems by (simp add: fb_inv_def)
    have e: "?j' = lov p t (j - 1)" using lps_entry [OF ok o] True by simp
    then have lt: "?j' < j" using lov_le [of p t "j - 1"] True by auto
    have "fb_inv p t b c ?j'" unfolding e using less.prems True by (intro fb_step) auto
    from less.IH [OF lt this] show ?thesis using True by (subst feed_loop.simps) simp
  next
    case False
    then show ?thesis using less.prems by (subst feed_loop.simps) auto
  qed
qed

definition kmp_inv :: "BitKMP \<Rightarrow> byte list \<Rightarrow> bool" where
  "kmp_inv k t \<longleftrightarrow> k_pat k \<noteq> [] \<and> lps_ok (k_pat k) (k_lps k) \<and>
                 k_j k = lov (k_pat k) t (length (k_pat k) - 1)"

lemma suffix_iff_lov:
  "suffix p t \<longleftrightarrow> lov p t (length p) = length p"
proof
  assume "suffix p t"
  then have "ov p t (length p)" by (simp add: ov_def)
  then show "lov p t (length p) = length p"
    using lov_ge [of "length p" "length p" p t] lov_le [of p t "length p"] by simp
next
  assume "lov p t (length p) = length p"
  then have "ov p t (length p)" using ov_lov [of p t "length p"] by simp
  then show "suffix p t" by (simp add: ov_def)
qed

lemma feed_correct:
  assumes inv: "kmp_inv k t"
  shows "\<exists>k'. feed k b = Some (suffix (k_pat k) (t @ [b]), k') \<and> kmp_inv k' (t @ [b]) \<and>
              k_pat k' = k_pat k"
proof -
  let ?p = "k_pat k" and ?n = "length (k_pat k)"
  have n: "0 < ?n" and ok: "lps_ok ?p (k_lps k)" and j: "k_j k = lov ?p t (?n - 1)"
    using inv by (simp_all add: kmp_inv_def)
  have sc: "Suc (?n - 1) = ?n" using n by simp
  have "fb_inv ?p t b (?n - 1) (k_j k)" unfolding j by (rule fb_inv_lov)
  from feed_loop_correct [OF ok this] obtain j1 where
    fl: "feed_loop ?p (k_lps k) b (k_j k) = Some j1" and fi: "fb_inv ?p t b (?n - 1) j1"
    and d: "j1 = 0 \<or> ?p ! j1 = b" by blast
  have "j1 \<le> ?n - 1" using fi by (simp add: fb_inv_def)
  then have j1: "j1 < ?n" using n by arith
  show ?thesis
  proof (cases "b = ?p ! j1")
    case True
    have L: "lov ?p (t @ [b]) ?n = Suc j1"
      using fb_done_hit [OF fi _ j1] True sc by simp
    show ?thesis
    proof (cases "Suc j1 = ?n")
      case eq: True
      then have s: "suffix ?p (t @ [b])" using L by (simp add: suffix_iff_lov)
      then have o: "ov ?p (t @ [b]) ?n" by (simp add: ov_def)
      have "k_lps k ! (?n - 1) = lov ?p (t @ [b]) (?n - 1)"
        using lps_entry [OF ok o n] .
      then show ?thesis using fl True eq s ok n
        by (simp add: feed_def kmp_inv_def)
    next
      case ne: False
      then have s: "\<not> suffix ?p (t @ [b])" using L by (simp add: suffix_iff_lov)
      have "lov ?p (t @ [b]) (Suc (?n - 1)) \<le> ?n - 1" using L j1 ne sc by simp
      from lov_pred [OF this] have "lov ?p (t @ [b]) (?n - 1) = Suc j1" using L sc by simp
      then show ?thesis using fl True ne s ok n
        by (simp add: feed_def kmp_inv_def)
    qed
  next
    case False
    then have z: "j1 = 0" using d by auto
    have L: "lov ?p (t @ [b]) ?n = 0"
      using fb_done_miss [of ?p t b "?n - 1"] fi False z sc by simp
    then have s: "\<not> suffix ?p (t @ [b])" using n by (simp add: suffix_iff_lov)
    have "lov ?p (t @ [b]) (Suc (?n - 1)) \<le> ?n - 1" using L sc by simp
    from lov_pred [OF this] have "lov ?p (t @ [b]) (?n - 1) = 0" using L sc by simp
    then show ?thesis using fl False z s ok n
      by (simp add: feed_def kmp_inv_def)
  qed
qed


lemma lov_border:
  assumes o: "ov p t j" and "0 < j"
  shows "lov p (take (Suc (j - 1)) p) (j - 1) = lov p t (j - 1)"
  using lov_chain [OF o, of "j - 1"] \<open>0 < j\<close> by simp

definition tb_inv :: "'a list \<Rightarrow> nat list \<Rightarrow> nat \<Rightarrow> nat \<Rightarrow> bool" where
  "tb_inv p lps i len \<longleftrightarrow>
     length lps = length p \<and> 1 \<le> i \<and> i \<le> length p \<and>
     (\<forall>k<i. lps ! k = lov p (take (Suc k) p) k) \<and>
     (i < length p \<longrightarrow> fb_inv p (take i p) (p ! i) (i - 1) len)"

lemma fb_inv_next:
  assumes "lov p t c = j"
  shows "fb_inv p t b c j"
  using fb_inv_lov [of p t b c] assms by simp

lemma lps_loop_correct:
  "tb_inv p lps i len \<Longrightarrow> \<exists>lps'. lps_loop p lps i len = Some lps' \<and> lps_ok p lps'"
proof (induction "2 * (length p - i) + len" arbitrary: lps i len rule: less_induct)
  case less
  have len: "length lps = length p" and i1: "1 \<le> i" and il: "i \<le> length p"
    and tab: "\<And>k. k < i \<Longrightarrow> lps ! k = lov p (take (Suc k) p) k"
    using less.prems by (simp_all add: tb_inv_def)
  show ?case
  proof (cases "i < length p")
    case False
    then have "i = length p" using il by simp
    then have "lps_ok p lps" using len tab by (simp add: lps_ok_def)
    then show ?thesis using False by (subst lps_loop.simps) simp
  next
    case True
    let ?t = "take i p" and ?b = "p ! i"
    have fi: "fb_inv p ?t ?b (i - 1) len" using less.prems True by (simp add: tb_inv_def)
    have tk: "take (Suc i) p = ?t @ [?b]" using True by (rule take_Suc_conv_app_nth)
    have sc: "Suc (i - 1) = i" using i1 by simp
    have lenlt: "len < length p" using fi True i1 by (auto simp: fb_inv_def)
    show ?thesis
    proof (cases "p ! i = p ! len")
      case hit: True
      have e: "lov p (take (Suc i) p) i = Suc len"
        using fb_done_hit [OF fi _ lenlt] hit sc by (simp add: tk)
      have "tb_inv p (lps[i := Suc len]) (Suc i) (Suc len)"
        unfolding tb_inv_def
      proof (intro conjI allI impI)
        show "length (lps[i := Suc len]) = length p" using len by simp
        show "1 \<le> Suc i" by simp
        show "Suc i \<le> length p" using True by simp
        show "lps[i := Suc len] ! k = lov p (take (Suc k) p) k" if "k < Suc i" for k
          using that tab [of k] e len True by (cases "k = i") simp_all
        show "fb_inv p (take (Suc i) p) (p ! Suc i) (Suc i - 1) (Suc len)"
          using e by (intro fb_inv_next) simp
      qed
      moreover have "2 * (length p - Suc i) + Suc len < 2 * (length p - i) + len"
        using True by arith
      ultimately obtain lps' where
        "lps_loop p (lps[i := Suc len]) (Suc i) (Suc len) = Some lps'" "lps_ok p lps'"
        using less.hyps by blast
      then show ?thesis using True hit by (subst lps_loop.simps) simp
    next
      case miss: False
      show ?thesis
      proof (cases "len \<noteq> 0")
        case True
        have o: "ov p ?t len" using fi by (simp add: fb_inv_def)
        have "len - 1 < i" using fi i1 by (auto simp: fb_inv_def)
        then have "lps ! (len - 1) = lov p (take (Suc (len - 1)) p) (len - 1)" by (rule tab)
        also have "\<dots> = lov p ?t (len - 1)" using lov_border [OF o] True by simp
        finally have e: "lps ! (len - 1) = lov p ?t (len - 1)" .
        have "fb_inv p ?t ?b (i - 1) (lps ! (len - 1))"
          unfolding e using fi True miss by (intro fb_step) auto
        then have "tb_inv p lps i (lps ! (len - 1))"
          using less.prems by (simp add: tb_inv_def)
        moreover have "lps ! (len - 1) < len"
          unfolding e using lov_le [of p ?t "len - 1"] True by arith
        then have "2 * (length p - i) + lps ! (len - 1) < 2 * (length p - i) + len" by simp
        ultimately obtain lps' where
          "lps_loop p lps i (lps ! (len - 1)) = Some lps'" "lps_ok p lps'"
          using less.hyps by blast
        then show ?thesis using \<open>i < length p\<close> miss True by (subst lps_loop.simps) simp
      next
        case False
        then have z: "len = 0" by simp
        have e: "lov p (take (Suc i) p) i = 0"
          using fb_done_miss [of p ?t ?b "i - 1"] fi miss sc z by (simp add: tk)
        have "tb_inv p (lps[i := 0]) (Suc i) len"
          unfolding tb_inv_def
        proof (intro conjI allI impI)
          show "length (lps[i := 0]) = length p" using len by simp
          show "1 \<le> Suc i" by simp
          show "Suc i \<le> length p" using \<open>i < length p\<close> by simp
          show "lps[i := 0] ! k = lov p (take (Suc k) p) k" if "k < Suc i" for k
            using that tab [of k] e len \<open>i < length p\<close> by (cases "k = i") simp_all
          show "fb_inv p (take (Suc i) p) (p ! Suc i) (Suc i - 1) len"
            using e z by (intro fb_inv_next) simp
        qed
        moreover have "2 * (length p - Suc i) + len < 2 * (length p - i) + len"
          using \<open>i < length p\<close> by arith
        ultimately obtain lps' where
          "lps_loop p (lps[i := 0]) (Suc i) len = Some lps'" "lps_ok p lps'"
          using less.hyps by blast
        then show ?thesis using \<open>i < length p\<close> miss z by (subst lps_loop.simps) simp
      qed
    qed
  qed
qed

lemma reset_correct:
  assumes "pat \<noteq> []"
  shows "\<exists>k. reset pat = Some k \<and> kmp_inv k [] \<and> k_pat k = pat"
proof -
  have "lov pat (take (Suc 0) pat) 0 = 0" using lov_le [of pat "take (Suc 0) pat" 0] by simp
  moreover have "Suc 0 \<le> length pat" using assms by (cases pat) simp_all
  moreover have "replicate (length pat) 0 ! 0 = (0::nat)" using assms by (intro nth_replicate) simp
  ultimately have "tb_inv pat (replicate (length pat) 0) 1 0"
    by (auto simp: tb_inv_def intro!: fb_inv_next)
  then obtain lps where l: "lps_loop pat (replicate (length pat) 0) 1 0 = Some lps" "lps_ok pat lps"
    using lps_loop_correct by blast
  have "lov pat [] (length pat - 1) = 0"
    by (rule lov_eqI) (auto simp: ov_def)
  then show ?thesis using l assms by (simp add: reset_def kmp_inv_def)
qed

lemma feed_all_correct:
  "kmp_inv k t \<Longrightarrow>
   \<exists>k'. feed_all k bs = Some (map (\<lambda>i. suffix (k_pat k) (t @ take (Suc i) bs)) [0..<length bs], k') \<and>
        kmp_inv k' (t @ bs) \<and> k_pat k' = k_pat k"
proof (induction bs arbitrary: k t)
  case Nil
  then show ?case by simp
next
  case (Cons b bs)
  from feed_correct [OF Cons.prems, of b] obtain k1 where
    f: "feed k b = Some (suffix (k_pat k) (t @ [b]), k1)" and i1: "kmp_inv k1 (t @ [b])"
    and p1: "k_pat k1 = k_pat k" by blast
  from Cons.IH [OF i1, of ] obtain k' where
    fa: "feed_all k1 bs = Some (map (\<lambda>i. suffix (k_pat k1) ((t @ [b]) @ take (Suc i) bs)) [0..<length bs], k')"
    and i': "kmp_inv k' ((t @ [b]) @ bs)" and p': "k_pat k' = k_pat k1" by blast
  have "map (\<lambda>i. suffix (k_pat k) (t @ take (Suc i) (b # bs))) [0..<length (b # bs)]
      = suffix (k_pat k) (t @ [b]) # map (\<lambda>i. suffix (k_pat k) ((t @ [b]) @ take (Suc i) bs)) [0..<length bs]"
  proof -
    have "[Suc 0..<Suc (length bs)] = map Suc [0..<length bs]" by (simp only: map_Suc_upt)
    then show ?thesis by (simp add: upt_conv_Cons comp_def del: upt_Suc)
  qed
  then show ?case using f fa i' p1 p' by simp
qed


text \<open>
  Claim C7. For every non-empty pattern and every sequence fed one symbol at a time from the
  reset state, the table construction and every \<^verbatim>\<open>feed\<close> return, the failure table maps
  each prefix to its longest proper prefix that is also a suffix, and the answer at symbol
  \<open>i\<close> is true exactly when the pattern is a suffix of the first \<open>i + 1\<close> symbols, that is
  when an occurrence (overlapping an earlier one or not) ends there.
\<close>

theorem kmp_feed_reports_matches:
  assumes "pat \<noteq> []"
  shows "\<exists>k k'. reset pat = Some k \<and> lps_ok pat (k_lps k) \<and>
           feed_all k bs = Some (map (\<lambda>i. suffix pat (take (Suc i) bs)) [0..<length bs], k')"
proof -
  from reset_correct [OF assms] obtain k where
    r: "reset pat = Some k" and i: "kmp_inv k []" and p: "k_pat k = pat" by blast
  from feed_all_correct [OF i, of bs] obtain k' where
    "feed_all k bs = Some (map (\<lambda>i. suffix pat (take (Suc i) bs)) [0..<length bs], k')"
    using p by auto
  moreover have "lps_ok pat (k_lps k)" using i p by (simp add: kmp_inv_def)
  ultimately show ?thesis using r by blast
qed

theorem kmp_feed_reports_matches_witness:
  "[1, 0, 1] \<noteq> ([] :: byte list) \<and>
   (\<exists>k k'. reset [1, 0, 1] = Some k \<and>
      feed_all k [1, 0, 1, 0, 1, 1] = Some ([False, False, True, False, True, False], k'))"
proof -
  have ne: "[1, 0, 1] \<noteq> ([] :: byte list)" by simp
  have up: "[0..<6] = [0, 1, 2, 3, 4, 5]" by code_simp
  from kmp_feed_reports_matches [OF ne, of "[1, 0, 1, 0, 1, 1]"] obtain k k' where
    r: "reset [1, 0, 1] = Some k"
    and f: "feed_all k [1, 0, 1, 0, 1, 1]
        = Some (map (\<lambda>i. suffix [1, 0, 1] (take (Suc i) [1, 0, 1, 0, 1, 1 :: byte])) [0..<length [1, 0, 1, 0, 1, 1 :: byte]], k')"
    by blast
  have "map (\<lambda>i. suffix [1, 0, 1] (take (Suc i) [1, 0, 1, 0, 1, 1 :: byte])) [0..<length [1, 0, 1, 0, 1, 1 :: byte]]
      = [False, False, True, False, True, False]"
    by (simp add: up suffix_to_prefix)
  then show ?thesis using ne r f by auto
qed

section \<open>BitReader (bitunwrap.cpp)\<close>

text \<open>
  The reader refills a buffer of \<^verbatim>\<open>buf_bytes\<close> bytes from the stream \<open>r_in\<close> and hands
  out the bits of each byte from the most significant one. \<^verbatim>\<open>next_bit\<close> returns -1 at the
  end of the input; here that is \<open>None\<close>.
\<close>

record BitReader =
  r_in :: "byte list"
  r_buf :: "byte list"
  r_pos :: nat
  r_filled :: nat
  r_cur_byte :: byte
  r_bit_idx :: byte

definition BitReader_init :: "byte list \<Rightarrow> nat \<Rightarrow> BitReader" where
  "BitReader_init fin buf_bytes =
     \<lparr>r_in = fin, r_buf = replicate buf_bytes 0, r_pos = 0, r_filled = 0, r_cur_byte = 0,
      r_bit_idx = 8\<rparr>"

definition refill :: "BitReader \<Rightarrow> bool \<times> BitReader" where
  "refill r =
     (let got = take (length (r_buf r)) (r_in r)
      in (0 < length got,
          r\<lparr>r_in := drop (length (r_buf r)) (r_in r),
            r_buf := got @ drop (length got) (r_buf r),
            r_filled := length got, r_pos := 0\<rparr>))"

definition take_bit_of :: "BitReader \<Rightarrow> byte option \<times> BitReader" where
  "take_bit_of r =
     (Some (drop_bit (7 - unat (r_bit_idx r)) (r_cur_byte r) AND 1),
      r\<lparr>r_bit_idx := r_bit_idx r + 1\<rparr>)"

definition load_byte :: "BitReader \<Rightarrow> BitReader" where
  "load_byte r = r\<lparr>r_cur_byte := r_buf r ! r_pos r, r_pos := Suc (r_pos r), r_bit_idx := 0\<rparr>"

definition next_bit :: "BitReader \<Rightarrow> byte option \<times> BitReader" where
  "next_bit r =
     (if r_bit_idx r \<ge> 8 then
        (if r_pos r \<ge> r_filled r then
           (case refill r of
              (ok, r') \<Rightarrow> if \<not> ok then (None, r') else take_bit_of (load_byte r'))
         else take_bit_of (load_byte r))
      else take_bit_of r)"

text \<open>The number of bits still to come bounds every loop that reads until end of input.\<close>

definition bits_left :: "BitReader \<Rightarrow> nat" where
  "bits_left r = 8 * (length (r_in r) + (r_filled r - r_pos r)) + (8 - unat (r_bit_idx r))"

lemma next_bit_bits_left:
  assumes "next_bit r = (Some b, r')"
  shows "bits_left r' < bits_left r"
proof (cases "r_bit_idx r \<ge> 8")
  case True
  then have u: "8 \<le> unat (r_bit_idx r)" by (simp add: word_le_nat_alt)
  show ?thesis
  proof (cases "r_pos r \<ge> r_filled r")
    case p: True
    let ?r1 = "snd (refill r)"
    define g where "g = length (take (length (r_buf r)) (r_in r))"
    define a where "a = length (r_in ?r1)"
    have ok: "0 < g" and r': "(Some b, r') = take_bit_of (load_byte ?r1)"
      using assms True p unfolding g_def
      by (auto simp: next_bit_def refill_def Let_def split: if_splits)
    have s: "a + g = length (r_in r)" and f: "r_filled ?r1 = g" and z: "r_pos ?r1 = 0"
      unfolding a_def g_def by (simp_all add: refill_def Let_def)
    have "bits_left r' = 8 * (length (r_in ?r1) + (r_filled ?r1 - Suc (r_pos ?r1))) + 7"
      using r' by (simp add: take_bit_of_def load_byte_def bits_left_def)
    then have "bits_left r' = 8 * (a + (g - 1)) + 7" unfolding f z a_def by simp
    moreover have "bits_left r = 8 * length (r_in r)" using u p by (simp add: bits_left_def)
    ultimately show ?thesis using ok s by arith
  next
    case False
    then show ?thesis
      using assms True u
      by (auto simp: next_bit_def take_bit_of_def load_byte_def bits_left_def)
  qed
next
  case False
  then have u: "unat (r_bit_idx r) < 8" by (simp add: word_le_nat_alt)
  then have "unat (r_bit_idx r + 1) = Suc (unat (r_bit_idx r))" by (rule unat_off_Suc)
  then show ?thesis
    using assms False u by (auto simp: next_bit_def take_bit_of_def bits_left_def)
qed

section \<open>unwrap\_file\_bits (bitunwrap.cpp)\<close>

text \<open>
  \<^verbatim>\<open>parse_bitstring_\<close> maps a null pointer to the empty vector and throws on a character
  other than 0 and 1; the exception is \<open>None\<close>. Of the call's arguments the model keeps
  what decides its run: the input file's bytes (\<open>None\<close> when it cannot be opened), whether
  the output file can be opened, and the two patterns. The result carries the return code,
  the bytes the output file holds afterwards (\<open>None\<close> when the call never opened it) and the
  two position globals. \<^verbatim>\<open>std::bad_alloc\<close> and other exceptions (return code -99) are not
  modelled. The outer \<open>option\<close> is \<open>None\<close> only if a KMP loop failed to return.
\<close>

definition parse_bitstring :: "string option \<Rightarrow> byte list option" where
  "parse_bitstring s =
     (case s of
        None \<Rightarrow> Some []
      | Some cs \<Rightarrow>
          fold (\<lambda>c acc. case acc of
                          None \<Rightarrow> None
                        | Some v \<Rightarrow> if c = CHR ''0'' then Some (v @ [0])
                                    else if c = CHR ''1'' then Some (v @ [1])
                                    else None)
               cs (Some []))"

definition IO_BUF :: nat where
  "IO_BUF = 8 * 2 ^ 20"

function find_start :: "BitReader \<Rightarrow> BitKMP \<Rightarrow> nat \<Rightarrow> (bool \<times> BitReader \<times> nat) option" where
  "find_start br kmp bit_index =
     (case next_bit br of
        (None, br') \<Rightarrow> Some (False, br', bit_index)
      | (Some b, br') \<Rightarrow>
          (case feed kmp b of
             None \<Rightarrow> None
           | Some (True, kmp') \<Rightarrow> Some (True, br', Suc bit_index)
           | Some (False, kmp') \<Rightarrow> find_start br' kmp' (Suc bit_index)))"
  by pat_completeness auto
termination
  by (relation "measure (\<lambda>(br, kmp, bit_index). bits_left br)")
     (auto dest: next_bit_bits_left [OF sym])

function find_end ::
  "BitReader \<Rightarrow> BitKMP \<Rightarrow> BitWriter \<Rightarrow> byte list \<Rightarrow> nat
     \<Rightarrow> (bool \<times> BitWriter \<times> byte list \<times> nat) option" where
  "find_end br kmp bw tail bit_index =
     (case next_bit br of
        (None, br') \<Rightarrow> Some (False, bw, tail, bit_index)
      | (Some b, br') \<Rightarrow>
          (let tail1 = tail @ [b] in
           case feed kmp b of
             None \<Rightarrow> None
           | Some (True, kmp') \<Rightarrow>
               Some (True, bw,
                     (if length tail1 \<ge> need kmp then take (length tail1 - need kmp) tail1 else []),
                     Suc bit_index)
           | Some (False, kmp') \<Rightarrow>
               (if length tail1 > need kmp
                then find_end br' kmp' (write_bit (hd tail1) bw) (tl tail1) (Suc bit_index)
                else find_end br' kmp' bw tail1 (Suc bit_index))))"
  by pat_completeness auto
termination
  by (relation "measure (\<lambda>(br, kmp, bw, tail, bit_index). bits_left br)")
     (auto dest: next_bit_bits_left [OF sym])

record unwrap_result =
  u_ret :: int
  u_out :: "byte list option"
  g_last_start_flag_pos :: nat
  g_last_end_flag_pos :: nat

definition unwrap_file_bits ::
  "byte list option \<Rightarrow> bool \<Rightarrow> string option \<Rightarrow> string option \<Rightarrow> unwrap_result option" where
  "unwrap_file_bits fin fout_ok start_flag_bits end_flag_bits =
     (case fin of
        None \<Rightarrow> Some \<lparr>u_ret = -1, u_out = None, g_last_start_flag_pos = 0, g_last_end_flag_pos = 0\<rparr>
      | Some in_bytes \<Rightarrow>
        if \<not> fout_ok
        then Some \<lparr>u_ret = -2, u_out = None, g_last_start_flag_pos = 0, g_last_end_flag_pos = 0\<rparr>
        else
          (case (parse_bitstring start_flag_bits, parse_bitstring end_flag_bits) of
             (Some start_bits, Some end_bits) \<Rightarrow>
               if start_bits = [] \<or> end_bits = []
               then Some \<lparr>u_ret = -3, u_out = Some [], g_last_start_flag_pos = 0, g_last_end_flag_pos = 0\<rparr>
               else
                 (case (reset start_bits, reset end_bits) of
                    (Some kmp_start, Some kmp_end) \<Rightarrow>
                      (case find_start (BitReader_init in_bytes IO_BUF) kmp_start 0 of
                         None \<Rightarrow> None
                       | Some (False, br, bit_index) \<Rightarrow>
                           Some \<lparr>u_ret = -4, u_out = Some [], g_last_start_flag_pos = 0,
                                 g_last_end_flag_pos = 0\<rparr>
                       | Some (True, br, bit_index) \<Rightarrow>
                           (let start_pos = bit_index - length start_bits in
                            case find_end br kmp_end BitWriter_init [] bit_index of
                              None \<Rightarrow> None
                            | Some (False, bw, tail, bit_index') \<Rightarrow>
                                Some \<lparr>u_ret = -4, u_out = Some (w_out bw),
                                      g_last_start_flag_pos = start_pos, g_last_end_flag_pos = 0\<rparr>
                            | Some (True, bw, tail, bit_index') \<Rightarrow>
                                Some \<lparr>u_ret = 0,
                                      u_out = Some (w_out (pad_to_byte (write_bits tail bw))),
                                      g_last_start_flag_pos = start_pos,
                                      g_last_end_flag_pos = bit_index' - length end_bits\<rparr>))
                  | _ \<Rightarrow> None)
           | _ \<Rightarrow> Some \<lparr>u_ret = -3, u_out = Some [], g_last_start_flag_pos = 0, g_last_end_flag_pos = 0\<rparr>))"


section \<open>wrap\_file\_bits (bitwrap.cpp)\<close>

text \<open>
  The dummy bits come from \<^verbatim>\<open>std::mt19937_64\<close>, which is part of the C++ standard
  library and not of this repository. Its seeding recurrence, state transition and tempering
  are written here after the standard's definition of \<^verbatim>\<open>mersenne_twister_engine\<close> with the
  \<^verbatim>\<open>mt19937_64\<close> parameters; the state is the window of the last 312 words. With
  \<^verbatim>\<open>rng_seed = 0\<close> the generator is seeded from \<^verbatim>\<open>std::random_device\<close>: the state this
  produces is the extra argument \<open>entropy\<close>.
\<close>

type_synonym mt19937_64 = "64 word list"

fun mt_fill :: "nat \<Rightarrow> nat \<Rightarrow> 64 word \<Rightarrow> 64 word list" where
  "mt_fill n i x =
     (if n = 0 then []
      else x # mt_fill (n - 1) (i + 1)
                 (6364136223846793005 * (x XOR drop_bit 62 x) + of_nat (i + 1)))"

declare mt_fill.simps [simp del]

definition mt_seed :: "64 word \<Rightarrow> mt19937_64" where
  "mt_seed s = mt_fill 312 0 s"

definition mt_temper :: "64 word \<Rightarrow> 64 word" where
  "mt_temper x =
     (let z1 = x XOR (drop_bit 29 x AND 0x5555555555555555);
          z2 = z1 XOR (push_bit 17 z1 AND 0x71D67FFFEDA60000);
          z3 = z2 XOR (push_bit 37 z2 AND 0xFFF7EEE000000000)
      in z3 XOR drop_bit 43 z3)"

definition mt_next :: "mt19937_64 \<Rightarrow> 64 word \<times> mt19937_64" where
  "mt_next st =
     (let y = (st ! 0 AND 0xFFFFFFFF80000000) OR (st ! 1 AND 0x7FFFFFFF);
          x = st ! 156 XOR drop_bit 1 y XOR (if bit y 0 then 0xB5026F5AA96619E9 else 0)
      in (mt_temper x, tl st @ [x]))"

fun gen_bytes :: "nat \<Rightarrow> mt19937_64 \<Rightarrow> byte list \<times> mt19937_64" where
  "gen_bytes n rng =
     (if n = 0 then ([], rng)
      else (case mt_next rng of (v, rng1) \<Rightarrow>
              (case gen_bytes (n - 1) rng1 of (bs, rng2) \<Rightarrow> (ucast v # bs, rng2))))"

declare gen_bytes.simps [simp del]

definition DUMMY_BUF :: nat where
  "DUMMY_BUF = 2 ^ 20"

function dummy_chunks :: "nat \<Rightarrow> BitWriter \<Rightarrow> mt19937_64 \<Rightarrow> BitWriter \<times> mt19937_64" where
  "dummy_chunks remaining bw rng =
     (if remaining > 0 then
        (let chunk = min remaining DUMMY_BUF in
         case gen_bytes chunk rng of
           (tmp, rng') \<Rightarrow> dummy_chunks (remaining - chunk) (write_full_bytes tmp bw) rng')
      else (bw, rng))"
  by pat_completeness auto
termination
  by (relation "measure (\<lambda>(remaining, bw, rng). remaining)") (auto simp: DUMMY_BUF_def)

declare dummy_chunks.simps [simp del]

definition write_dummy_bits :: "BitWriter \<Rightarrow> nat \<Rightarrow> mt19937_64 \<Rightarrow> BitWriter \<times> mt19937_64" where
  "write_dummy_bits bw nbits rng =
     (if nbits = 0 then (bw, rng)
      else
        (let full_bytes = nbits div 8; tail_bits = nbits mod 8 in
         case dummy_chunks full_bytes bw rng of
           (bw1, rng1) \<Rightarrow>
             if tail_bits \<noteq> 0 then
               (case mt_next rng1 of
                  (v, rng2) \<Rightarrow>
                    (fold (\<lambda>b. write_bit (drop_bit b (ucast v :: byte) AND 1))
                       (rev [8 - tail_bits..<8]) bw1, rng2))
             else (bw1, rng1)))"

function copy_input :: "byte list \<Rightarrow> BitWriter \<Rightarrow> BitWriter" where
  "copy_input fin bw =
     (let chunk = take IO_BUF fin in
      if chunk = [] then bw else copy_input (drop IO_BUF fin) (write_full_bytes chunk bw))"
  by pat_completeness auto
termination
  by (relation "measure (\<lambda>(fin, bw). length fin)") (auto simp: IO_BUF_def)

declare copy_input.simps [simp del]

definition wrap_file_bits ::
  "byte list option \<Rightarrow> bool \<Rightarrow> string option \<Rightarrow> string option \<Rightarrow> nat \<Rightarrow> nat \<Rightarrow> 32 word
     \<Rightarrow> mt19937_64 \<Rightarrow> int \<times> byte list option" where
  "wrap_file_bits fin fout_ok start_flag_bits end_flag_bits dummy_left_bits dummy_right_bits
     rng_seed entropy =
     (case fin of
        None \<Rightarrow> (-1, None)
      | Some in_bytes \<Rightarrow>
        if \<not> fout_ok then (-2, None)
        else
          (let rng = (if rng_seed = 0 then entropy else mt_seed (ucast rng_seed)) in
           case (parse_bitstring start_flag_bits, parse_bitstring end_flag_bits) of
             (Some start_bits, Some end_bits) \<Rightarrow>
               (case write_dummy_bits BitWriter_init dummy_left_bits rng of
                  (bw1, rng1) \<Rightarrow>
                    (let bw2 = (if start_bits \<noteq> [] then write_bits start_bits bw1 else bw1);
                         bw3 = copy_input in_bytes bw2;
                         bw4 = (if end_bits \<noteq> [] then write_bits end_bits bw3 else bw3)
                     in case write_dummy_bits bw4 dummy_right_bits rng1 of
                          (bw5, rng2) \<Rightarrow> (0, Some (w_out (pad_to_byte bw5)))))
           | _ \<Rightarrow> (-3, Some [])))"


section \<open>What the bit-wrap codec computes\<close>

text \<open>
  A reader state is sound when its cursor lies within the filled part of a non-empty buffer;
  \<open>rem_bits\<close> is the bit sequence it will still deliver.
\<close>

definition reader_ok :: "BitReader \<Rightarrow> bool" where
  "reader_ok r \<longleftrightarrow> r_pos r \<le> r_filled r \<and> r_filled r \<le> length (r_buf r) \<and> 0 < length (r_buf r) \<and>
                 unat (r_bit_idx r) \<le> 8"

definition rem_bits :: "BitReader \<Rightarrow> byte list" where
  "rem_bits r = drop (unat (r_bit_idx r)) (byte_bits (r_cur_byte r)) @
                bits_of_bytes (take (r_filled r - r_pos r) (drop (r_pos r) (r_buf r))) @
                bits_of_bytes (r_in r)"

lemma bits_of_bytes_simps [simp]:
  "bits_of_bytes [] = []" "bits_of_bytes (x # xs) = byte_bits x @ bits_of_bytes xs"
  "bits_of_bytes (xs @ ys) = bits_of_bytes xs @ bits_of_bytes ys"
  by (simp_all add: bits_of_bytes_def)

lemma reader_init: "0 < n \<Longrightarrow> reader_ok (BitReader_init fin n) \<and> rem_bits (BitReader_init fin n) = bits_of_bytes fin"
  by (simp add: reader_ok_def rem_bits_def BitReader_init_def)

lemma byte_bits_nth_drop: "i < 8 \<Longrightarrow> byte_bits v ! i = drop_bit (7 - i) v AND 1"
  by (simp add: byte_bits_nth and_one_of_bool)

lemma take_bit_of_spec:
  assumes "unat (r_bit_idx r) < 8"
  shows "take_bit_of r = (Some (byte_bits (r_cur_byte r) ! unat (r_bit_idx r)),
                          r\<lparr>r_bit_idx := r_bit_idx r + 1\<rparr>) \<and>
         unat (r_bit_idx r + 1) = Suc (unat (r_bit_idx r))"
  using assms by (simp add: take_bit_of_def byte_bits_nth_drop unat_off_Suc)

lemma next_bit_specI:
  assumes "rem_bits r = b0 # rest" "next_bit r = (Some b0, r1)" "reader_ok r1" "rem_bits r1 = rest"
  shows "(rem_bits r = [] \<longrightarrow> fst (next_bit r) = None) \<and>
         (\<forall>b bs. rem_bits r = b # bs \<longrightarrow>
            (\<exists>r'. next_bit r = (Some b, r') \<and> reader_ok r' \<and> rem_bits r' = bs))"
  using assms by simp

lemma byte_bits_hd: "byte_bits v = byte_bits v ! 0 # drop (Suc 0) (byte_bits v)"
  using Cons_nth_drop_Suc [of 0 "byte_bits v"] by simp

lemma next_bit_spec:
  assumes ok: "reader_ok r"
  shows "(rem_bits r = [] \<longrightarrow> fst (next_bit r) = None) \<and>
         (\<forall>b bs. rem_bits r = b # bs \<longrightarrow>
            (\<exists>r'. next_bit r = (Some b, r') \<and> reader_ok r' \<and> rem_bits r' = bs))"
proof (cases "r_bit_idx r \<ge> 8")
  case False
  then have u: "unat (r_bit_idx r) < 8" by (simp add: word_le_nat_alt)
  let ?i = "unat (r_bit_idx r)"
  let ?r1 = "r\<lparr>r_bit_idx := r_bit_idx r + 1\<rparr>"
  have d: "drop ?i (byte_bits (r_cur_byte r)) = byte_bits (r_cur_byte r) ! ?i # drop (Suc ?i) (byte_bits (r_cur_byte r))"
    using u by (simp add: Cons_nth_drop_Suc)
  show ?thesis
  proof (rule next_bit_specI)
    show "next_bit r = (Some (byte_bits (r_cur_byte r) ! ?i), ?r1)"
      using False take_bit_of_spec [OF u] by (simp add: next_bit_def)
    show "reader_ok ?r1" using ok u take_bit_of_spec [OF u] by (simp add: reader_ok_def)
    show "rem_bits r = byte_bits (r_cur_byte r) ! ?i #
       (drop (Suc ?i) (byte_bits (r_cur_byte r)) @
        bits_of_bytes (take (r_filled r - r_pos r) (drop (r_pos r) (r_buf r))) @ bits_of_bytes (r_in r))"
      unfolding rem_bits_def d by simp
    show "rem_bits ?r1 = drop (Suc ?i) (byte_bits (r_cur_byte r)) @
        bits_of_bytes (take (r_filled r - r_pos r) (drop (r_pos r) (r_buf r))) @ bits_of_bytes (r_in r)"
      using take_bit_of_spec [OF u] by (simp add: rem_bits_def)
  qed
next
  case True
  then have "8 \<le> unat (r_bit_idx r)" by (simp add: word_le_nat_alt)
  then have u: "unat (r_bit_idx r) = 8" using ok by (simp add: reader_ok_def)
  show ?thesis
  proof (cases "r_pos r \<ge> r_filled r")
    case False
    let ?x = "r_buf r ! r_pos r"
    let ?r0 = "load_byte r"
    let ?r1 = "?r0\<lparr>r_bit_idx := r_bit_idx ?r0 + 1\<rparr>"
    let ?rest = "drop (Suc 0) (byte_bits ?x) @
        bits_of_bytes (take (r_filled r - Suc (r_pos r)) (drop (Suc (r_pos r)) (r_buf r))) @
        bits_of_bytes (r_in r)"
    have p: "r_pos r < r_filled r" "r_filled r \<le> length (r_buf r)" using False ok by (simp_all add: reader_ok_def)
    have i1: "unat (r_bit_idx ?r0) < 8" by (simp add: load_byte_def)
    have "r_filled r - r_pos r = Suc (r_filled r - Suc (r_pos r))" using p by simp
    moreover have "drop (r_pos r) (r_buf r) = ?x # drop (Suc (r_pos r)) (r_buf r)"
      using p by (simp add: Cons_nth_drop_Suc)
    ultimately have tk: "take (r_filled r - r_pos r) (drop (r_pos r) (r_buf r))
        = ?x # take (r_filled r - Suc (r_pos r)) (drop (Suc (r_pos r)) (r_buf r))"
      by simp
    show ?thesis
    proof (rule next_bit_specI)
      show "next_bit r = (Some (byte_bits ?x ! 0), ?r1)"
        using True False take_bit_of_spec [OF i1] by (simp add: next_bit_def load_byte_def)
      show "reader_ok ?r1" using ok p by (simp add: reader_ok_def load_byte_def)
      show "rem_bits r = byte_bits ?x ! 0 # ?rest"
        unfolding rem_bits_def tk u using byte_bits_hd [of ?x] by simp
      show "rem_bits ?r1 = ?rest" by (simp add: rem_bits_def load_byte_def)
    qed
  next
    case pf: True
    then have pe: "r_filled r - r_pos r = 0" by simp
    let ?n = "length (r_buf r)"
    let ?got = "take ?n (r_in r)"
    have n: "0 < ?n" using ok by (simp add: reader_ok_def)
    show ?thesis
    proof (cases "?got = []")
      case e: True
      then have "r_in r = []" using n by (cases "r_in r") auto
      then show ?thesis using True pf u pe by (simp add: next_bit_def refill_def rem_bits_def)
    next
      case ne: False
      then obtain x xs where g: "?got = x # xs" by (cases ?got) auto
      define r1 where "r1 = load_byte (snd (refill r))"
      let ?r2 = "r1\<lparr>r_bit_idx := r_bit_idx r1 + 1\<rparr>"
      let ?rest = "drop (Suc 0) (byte_bits x) @ bits_of_bytes xs @ bits_of_bytes (drop ?n (r_in r))"
      have rf: "fst (refill r)" using ne by (simp add: refill_def Let_def)
      have "r_in r = (x # xs) @ drop ?n (r_in r)" using g append_take_drop_id [of ?n "r_in r"] by simp
      then have "bits_of_bytes (r_in r) = bits_of_bytes ((x # xs) @ drop ?n (r_in r))" by simp
      then have bi: "bits_of_bytes (r_in r) = byte_bits x @ bits_of_bytes xs @ bits_of_bytes (drop ?n (r_in r))"
        by (simp only: bits_of_bytes_simps append_Cons append_Nil append_assoc)
      have l1: "r_cur_byte r1 = x" "r_pos r1 = 1" "r_filled r1 = Suc (length xs)"
        "r_in r1 = drop ?n (r_in r)" "r_buf r1 = (x # xs) @ drop (Suc (length xs)) (r_buf r)"
        "r_bit_idx r1 = 0"
        unfolding r1_def refill_def Let_def g by (simp_all add: load_byte_def)
      have i1: "unat (r_bit_idx r1) < 8" by (simp add: l1)
      have lg: "Suc (length xs) \<le> ?n" using g by (metis length_Cons length_take min.cobounded2)
      show ?thesis
      proof (rule next_bit_specI)
        have "next_bit r = take_bit_of r1"
          using True pf rf by (cases "refill r") (simp add: next_bit_def r1_def)
        then show "next_bit r = (Some (byte_bits x ! 0), ?r2)"
          using take_bit_of_spec [OF i1] l1 by simp
        show "reader_ok ?r2" using lg n by (simp add: reader_ok_def l1)
        show "rem_bits r = byte_bits x ! 0 # ?rest"
          unfolding rem_bits_def pe u bi using byte_bits_hd [of x] by simp
        show "rem_bits ?r2 = ?rest" by (simp add: rem_bits_def l1)
      qed
    qed
  qed
qed


text \<open>
  \<open>first_end p t bs\<close>: how many symbols of \<open>bs\<close> are consumed until the pattern \<open>p\<close> first
  ends, given that \<open>t\<close> was consumed before.
\<close>

fun first_end :: "'a list \<Rightarrow> 'a list \<Rightarrow> 'a list \<Rightarrow> nat option" where
  "first_end p t [] = None"
| "first_end p t (b # bs) =
     (if suffix p (t @ [b]) then Some 1 else map_option Suc (first_end p (t @ [b]) bs))"

declare find_start.simps [simp del] find_end.simps [simp del] suffix_snoc [simp del]

lemma first_end_bound: "first_end p t bs = Some n \<Longrightarrow> 0 < n \<and> n \<le> length bs"
  by (induction bs arbitrary: t n) (auto split: if_splits)

lemma find_start_spec:
  assumes "reader_ok br" "kmp_inv k t"
  shows "\<exists>br'. find_start br k idx =
            Some (first_end (k_pat k) t (rem_bits br) \<noteq> None, br',
                  idx + (case first_end (k_pat k) t (rem_bits br) of
                           None \<Rightarrow> length (rem_bits br) | Some n \<Rightarrow> n)) \<and>
          (\<forall>n. first_end (k_pat k) t (rem_bits br) = Some n \<longrightarrow>
                reader_ok br' \<and> rem_bits br' = drop n (rem_bits br))"
  using assms
proof (induction "rem_bits br" arbitrary: br k t idx)
  case Nil
  then have "fst (next_bit br) = None" using next_bit_spec [of br] by simp
  then obtain br' where "next_bit br = (None, br')" by (cases "next_bit br") auto
  then show ?case using Nil(1) [symmetric] by (subst find_start.simps) simp
next
  case (Cons b bs)
  from Cons(2) [symmetric] obtain r1 where
    nb: "next_bit br = (Some b, r1)" and ok1: "reader_ok r1" and rb1: "rem_bits r1 = bs"
    using next_bit_spec [OF Cons.prems(1)] by blast
  from feed_correct [OF Cons.prems(2), of b] obtain k1 where
    f: "feed k b = Some (suffix (k_pat k) (t @ [b]), k1)" and i1: "kmp_inv k1 (t @ [b])"
    and p1: "k_pat k1 = k_pat k" by blast
  show ?case
  proof (cases "suffix (k_pat k) (t @ [b])")
    case True
    then show ?thesis using nb f ok1 rb1 Cons(2) [symmetric]
      by (subst find_start.simps) (simp)
  next
    case False
    from Cons(1) [OF rb1 [symmetric] ok1 i1, of "Suc idx"] obtain br' where
      r: "find_start r1 k1 (Suc idx) =
            Some (first_end (k_pat k) (t @ [b]) bs \<noteq> None, br',
                  Suc idx + (case first_end (k_pat k) (t @ [b]) bs of None \<Rightarrow> length bs | Some n \<Rightarrow> n))"
      and d: "\<And>n. first_end (k_pat k) (t @ [b]) bs = Some n \<Longrightarrow> reader_ok br' \<and> rem_bits br' = drop n bs"
      unfolding p1 rb1 by blast
    have "find_start br k idx = find_start r1 k1 (Suc idx)"
      using nb f False by (subst find_start.simps) (simp)
    then show ?thesis
      unfolding Cons(2) [symmetric] using r d False
      by (cases "first_end (k_pat k) (t @ [b]) bs") auto
  qed
qed

lemma write_bits_Cons: "write_bits (x # xs) w = write_bits xs (write_bit x w)"
  by (simp add: write_bits_def)

lemma write_bits_Nil: "write_bits [] w = w"
  by (simp add: write_bits_def)

definition kept_bits :: "nat \<Rightarrow> 'a list \<Rightarrow> nat \<Rightarrow> 'a list \<Rightarrow> 'a list" where
  "kept_bits m tail n bits = take (length tail + n - m) (tail @ take n bits)"

lemma find_end_spec:
  assumes "reader_ok br" "kmp_inv k t" "length tail = min (length t) (need k)"
  shows "(first_end (k_pat k) t (rem_bits br) = None \<longrightarrow>
            (\<exists>bw' tail' i'. find_end br k bw tail idx = Some (False, bw', tail', i'))) \<and>
         (\<forall>n. first_end (k_pat k) t (rem_bits br) = Some n \<longrightarrow>
            (\<exists>bw' tail'. find_end br k bw tail idx = Some (True, bw', tail', idx + n) \<and>
               write_bits tail' bw' = write_bits (kept_bits (need k) tail n (rem_bits br)) bw))"
  using assms
proof (induction "rem_bits br" arbitrary: br k t idx bw tail)
  case Nil
  then have "fst (next_bit br) = None" using next_bit_spec [of br] by simp
  then obtain br' where "next_bit br = (None, br')" by (cases "next_bit br") auto
  then show ?case using Nil(1) [symmetric] by (subst find_end.simps) simp
next
  case (Cons b bs)
  from Cons(2) [symmetric] obtain r1 where
    nb: "next_bit br = (Some b, r1)" and ok1: "reader_ok r1" and rb1: "rem_bits r1 = bs"
    using next_bit_spec [OF Cons.prems(1)] by blast
  from feed_correct [OF Cons.prems(2), of b] obtain k1 where
    f: "feed k b = Some (suffix (k_pat k) (t @ [b]), k1)" and i1: "kmp_inv k1 (t @ [b])"
    and p1: "k_pat k1 = k_pat k" by blast
  have nk: "need k1 = need k" using p1 by (simp add: need_def)
  note lt = Cons.prems(3)
  show ?case
  proof (cases "suffix (k_pat k) (t @ [b])")
    case True
    then have "length (k_pat k) \<le> length (t @ [b])" by (rule suffix_length_le)
    then have ge: "need k \<le> length (tail @ [b])" using lt by (simp add: need_def)
    have n1: "0 < need k" using Cons.prems(2) by (simp add: kmp_inv_def need_def)
    have "find_end br k bw tail idx =
          Some (True, bw, take (length (tail @ [b]) - need k) (tail @ [b]), Suc idx)"
      using nb f True ge by (subst find_end.simps) (simp add: Let_def)
    moreover have "kept_bits (need k) tail 1 (b # bs)
        = take (length (tail @ [b]) - need k) (tail @ [b])" by (simp add: kept_bits_def)
    ultimately show ?thesis unfolding Cons(2) [symmetric] using True
      by (simp del: take_append length_append)
  next
    case False
    have fe: "first_end (k_pat k) t (b # bs) = map_option Suc (first_end (k_pat k) (t @ [b]) bs)"
      using False by (simp)
    show ?thesis
    proof (cases "length (tail @ [b]) > need k")
      case gt: True
      then have le: "length tail = need k" using lt by simp
      obtain x tl' where tc: "tail @ [b] = x # tl'" by (cases "tail @ [b]") auto
      then have ltl: "length tl' = length tail" by (metis length_Cons length_append_singleton nat.inject)
      have st: "find_end br k bw tail idx = find_end r1 k1 (write_bit x bw) tl' (Suc idx)"
        using nb f False gt tc by (subst find_end.simps) (simp add: Let_def nk)
      have "length tl' = min (length (t @ [b])) (need k1)" using ltl le lt nk by simp
      from Cons(1) [OF rb1 [symmetric] ok1 i1 this, of "write_bit x bw" "Suc idx"]
      have ih: "(first_end (k_pat k) (t @ [b]) bs = None \<longrightarrow>
            (\<exists>bw' tail' i'. find_end r1 k1 (write_bit x bw) tl' (Suc idx) = Some (False, bw', tail', i'))) \<and>
         (\<forall>n. first_end (k_pat k) (t @ [b]) bs = Some n \<longrightarrow>
            (\<exists>bw' tail'. find_end r1 k1 (write_bit x bw) tl' (Suc idx) = Some (True, bw', tail', Suc idx + n) \<and>
               write_bits tail' bw' = write_bits (kept_bits (need k) tl' n bs) (write_bit x bw)))"
        unfolding p1 rb1 nk .
      have "kept_bits (need k) tail (Suc n) (b # bs) = x # kept_bits (need k) tl' n bs" for n
      proof -
        have e: "tail @ take (Suc n) (b # bs) = x # (tl' @ take n bs)" using tc by simp
        have a: "length tail + Suc n - need k = Suc n" "length tl' + n - need k = n"
          using le ltl by simp_all
        show ?thesis unfolding kept_bits_def e a by (simp only: take_Suc_Cons)
      qed
      then show ?thesis
        unfolding Cons(2) [symmetric] fe st using ih
        by (cases "first_end (k_pat k) (t @ [b]) bs") (auto simp: write_bits_Cons)
    next
      case ngt: False
      have st: "find_end br k bw tail idx = find_end r1 k1 bw (tail @ [b]) (Suc idx)"
        using nb f False ngt by (subst find_end.simps) (simp add: Let_def nk)
      have "length (tail @ [b]) = min (length (t @ [b])) (need k1)" using ngt lt nk by auto
      from Cons(1) [OF rb1 [symmetric] ok1 i1 this, of bw "Suc idx"]
      have ih: "(first_end (k_pat k) (t @ [b]) bs = None \<longrightarrow>
            (\<exists>bw' tail' i'. find_end r1 k1 bw (tail @ [b]) (Suc idx) = Some (False, bw', tail', i'))) \<and>
         (\<forall>n. first_end (k_pat k) (t @ [b]) bs = Some n \<longrightarrow>
            (\<exists>bw' tail'. find_end r1 k1 bw (tail @ [b]) (Suc idx) = Some (True, bw', tail', Suc idx + n) \<and>
               write_bits tail' bw' = write_bits (kept_bits (need k) (tail @ [b]) n bs) bw))"
        unfolding p1 rb1 nk .
      moreover have "kept_bits (need k) (tail @ [b]) n bs = kept_bits (need k) tail (Suc n) (b # bs)" for n
        by (simp add: kept_bits_def)
      ultimately show ?thesis
        unfolding Cons(2) [symmetric] fe st
        by (cases "first_end (k_pat k) (t @ [b]) bs") auto
    qed
  qed
qed


definition is_first_end :: "'a list \<Rightarrow> 'a list \<Rightarrow> nat \<Rightarrow> bool" where
  "is_first_end p bs n \<longleftrightarrow> n \<le> length bs \<and> suffix p (take n bs) \<and> (\<forall>m<n. \<not> suffix p (take m bs))"

lemma first_end_Some_iff:
  "first_end p t bs = Some n \<longleftrightarrow>
     0 < n \<and> n \<le> length bs \<and> suffix p (t @ take n bs) \<and>
     (\<forall>m. 0 < m \<and> m < n \<longrightarrow> \<not> suffix p (t @ take m bs))"
proof (induction bs arbitrary: t n)
  case Nil
  then show ?case by auto
next
  case (Cons b bs)
  show ?case
  proof (cases "suffix p (t @ [b])")
    case True
    have "n = 1" if "0 < n" "\<forall>m. 0 < m \<and> m < n \<longrightarrow> \<not> suffix p (t @ take m (b # bs))"
    proof (rule ccontr)
      assume "n \<noteq> 1"
      then have "0 < (1::nat) \<and> 1 < n" using that(1) by simp
      then have "\<not> suffix p (t @ take 1 (b # bs))" using that(2) by blast
      then show False using True by simp
    qed
    then show ?thesis using True by auto
  next
    case False
    have "(\<forall>m. 0 < m \<and> m < Suc k \<longrightarrow> \<not> suffix p (t @ take m (b # bs)))
        \<longleftrightarrow> (\<forall>m. 0 < m \<and> m < k \<longrightarrow> \<not> suffix p ((t @ [b]) @ take m bs))" for k
    proof
      assume a: "\<forall>m. 0 < m \<and> m < Suc k \<longrightarrow> \<not> suffix p (t @ take m (b # bs))"
      show "\<forall>m. 0 < m \<and> m < k \<longrightarrow> \<not> suffix p ((t @ [b]) @ take m bs)"
      proof (intro allI impI)
        fix m assume "0 < m \<and> m < k"
        then have "\<not> suffix p (t @ take (Suc m) (b # bs))" using a by (metis Suc_less_eq zero_less_Suc)
        then show "\<not> suffix p ((t @ [b]) @ take m bs)" by simp
      qed
    next
      assume a: "\<forall>m. 0 < m \<and> m < k \<longrightarrow> \<not> suffix p ((t @ [b]) @ take m bs)"
      show "\<forall>m. 0 < m \<and> m < Suc k \<longrightarrow> \<not> suffix p (t @ take m (b # bs))"
      proof (intro allI impI)
        fix m assume m: "0 < m \<and> m < Suc k"
        then obtain m' where m': "m = Suc m'" by (cases m) auto
        show "\<not> suffix p (t @ take m (b # bs))"
        proof (cases "m' = 0")
          case True
          then show ?thesis using False m' by simp
        next
          case nz: False
          then have "\<not> suffix p ((t @ [b]) @ take m' bs)" using a m m' by simp
          then show ?thesis using m' by simp
        qed
      qed
    qed
    note eq = this
    show ?thesis
    proof (cases n)
      case 0
      then show ?thesis using False by auto
    next
      case (Suc k)
      have "first_end p t (b # bs) = Some (Suc k) \<longleftrightarrow> first_end p (t @ [b]) bs = Some k"
        using False by auto
      also have "\<dots> \<longleftrightarrow> 0 < k \<and> k \<le> length bs \<and> suffix p ((t @ [b]) @ take k bs) \<and>
          (\<forall>m. 0 < m \<and> m < k \<longrightarrow> \<not> suffix p ((t @ [b]) @ take m bs))"
        by (rule Cons.IH)
      also have "\<dots> \<longleftrightarrow> 0 < Suc k \<and> Suc k \<le> length (b # bs) \<and> suffix p (t @ take (Suc k) (b # bs)) \<and>
          (\<forall>m. 0 < m \<and> m < Suc k \<longrightarrow> \<not> suffix p (t @ take m (b # bs)))"
        unfolding eq using False by (cases "k = 0") (simp_all)
      finally show ?thesis unfolding Suc .
    qed
  qed
qed

lemma first_end_is_first_end:
  assumes "p \<noteq> []"
  shows "first_end p [] bs = Some n \<longleftrightarrow> is_first_end p bs n"
proof -
  have "\<not> suffix p (take 0 bs)" using assms by simp
  then have "is_first_end p bs n \<longleftrightarrow> 0 < n \<and> n \<le> length bs \<and> suffix p (take n bs) \<and>
     (\<forall>m. 0 < m \<and> m < n \<longrightarrow> \<not> suffix p (take m bs))"
    unfolding is_first_end_def by (metis gr0I)
  then show ?thesis by (simp add: first_end_Some_iff)
qed

lemma parse_fold_None:
  "fold (\<lambda>c acc. case acc of None \<Rightarrow> None
        | Some v \<Rightarrow> if c = CHR ''0'' then Some (v @ [0::byte]) else if c = CHR ''1'' then Some (v @ [1]) else None)
      cs None = None"
  by (induction cs) simp_all

lemma parse_fold_Some:
  "fold (\<lambda>c acc. case acc of None \<Rightarrow> None
        | Some v \<Rightarrow> if c = CHR ''0'' then Some (v @ [0::byte]) else if c = CHR ''1'' then Some (v @ [1]) else None)
      cs (Some a) =
   (if \<forall>c\<in>set cs. c = CHR ''0'' \<or> c = CHR ''1''
    then Some (a @ map (\<lambda>c. if c = CHR ''0'' then 0 else 1) cs) else None)"
  by (induction cs arbitrary: a) (auto simp: parse_fold_None)

lemma parse_bitstring_Some:
  "parse_bitstring (Some cs) =
     (if \<forall>c\<in>set cs. c = CHR ''0'' \<or> c = CHR ''1''
      then Some (map (\<lambda>c. if c = CHR ''0'' then 0 else 1) cs) else None)"
  by (simp add: parse_bitstring_def parse_fold_Some)

definition bad_pattern :: "string option \<Rightarrow> bool" where
  "bad_pattern s \<longleftrightarrow>
     (case s of None \<Rightarrow> True
      | Some cs \<Rightarrow> cs = [] \<or> (\<exists>c\<in>set cs. c \<noteq> CHR ''0'' \<and> c \<noteq> CHR ''1''))"

lemma bad_pattern_parse:
  "bad_pattern s \<longleftrightarrow> parse_bitstring s = None \<or> parse_bitstring s = Some []"
  by (cases s) (auto simp: bad_pattern_def parse_bitstring_Some, simp add: parse_bitstring_def)

lemma IO_BUF_pos: "0 < IO_BUF"
  by (simp add: IO_BUF_def)

lemma unwrap_spec:
  assumes ps: "parse_bitstring start_flag_bits = Some S" and pe: "parse_bitstring end_flag_bits = Some E"
    and ne: "S \<noteq> []" "E \<noteq> []"
  shows "\<exists>res. unwrap_file_bits (Some F) True start_flag_bits end_flag_bits = Some res \<and>
    (case first_end S [] (bits_of_bytes F) of
       None \<Rightarrow> res = \<lparr>u_ret = -4, u_out = Some [], g_last_start_flag_pos = 0, g_last_end_flag_pos = 0\<rparr>
     | Some n1 \<Rightarrow>
        (case first_end E [] (drop n1 (bits_of_bytes F)) of
           None \<Rightarrow> u_ret res = -4 \<and> g_last_start_flag_pos res = n1 - length S \<and>
                   g_last_end_flag_pos res = 0
         | Some n2 \<Rightarrow>
             res = \<lparr>u_ret = 0,
                    u_out = Some (w_out (pad_to_byte (write_bits
                               (take (n2 - length E) (drop n1 (bits_of_bytes F))) BitWriter_init))),
                    g_last_start_flag_pos = n1 - length S,
                    g_last_end_flag_pos = n1 + n2 - length E\<rparr>))"
proof -
  from reset_correct [OF ne(1)] obtain ks where
    rs: "reset S = Some ks" and invs: "kmp_inv ks []" and pks: "k_pat ks = S" by blast
  from reset_correct [OF ne(2)] obtain ke where
    re: "reset E = Some ke" and inve: "kmp_inv ke []" and pke: "k_pat ke = E" by blast
  let ?br = "BitReader_init F IO_BUF"
  have ok: "reader_ok ?br" and rb: "rem_bits ?br = bits_of_bytes F"
    using reader_init [OF IO_BUF_pos, of F] by simp_all
  from find_start_spec [OF ok invs, of 0] obtain br1 where
    fs: "find_start ?br ks 0 =
           Some (first_end S [] (bits_of_bytes F) \<noteq> None, br1,
                 (case first_end S [] (bits_of_bytes F) of None \<Rightarrow> length (bits_of_bytes F) | Some n \<Rightarrow> n))"
    and d: "\<And>n. first_end S [] (bits_of_bytes F) = Some n \<Longrightarrow>
                reader_ok br1 \<and> rem_bits br1 = drop n (bits_of_bytes F)"
    unfolding pks rb by auto
  show ?thesis
  proof (cases "first_end S [] (bits_of_bytes F)")
    case None
    then show ?thesis using ps pe ne rs re fs
      by (simp add: unwrap_file_bits_def)
  next
    case (Some n1)
    then have ok1: "reader_ok br1" and rb1: "rem_bits br1 = drop n1 (bits_of_bytes F)" using d by auto
    have fs1: "find_start ?br ks 0 = Some (True, br1, n1)" using fs Some by simp
    have l0: "length ([]::byte list) = min (length ([]::byte list)) (need ke)" by simp
    note fe = find_end_spec [OF ok1 inve l0, of BitWriter_init n1, unfolded pke rb1]
    have nke: "need ke = length E" using pke by (simp add: need_def)
    show ?thesis
    proof (cases "first_end E [] (drop n1 (bits_of_bytes F))")
      case None
      then obtain bw' tail' i' where
        "find_end br1 ke BitWriter_init [] n1 = Some (False, bw', tail', i')" using fe by blast
      then show ?thesis using ps pe ne rs re fs1 Some None
        by (simp add: unwrap_file_bits_def Let_def)
    next
      case n2: (Some n2)
      then obtain bw' tail' where
        f2: "find_end br1 ke BitWriter_init [] n1 = Some (True, bw', tail', n1 + n2)"
        and w: "write_bits tail' bw' = write_bits (kept_bits (need ke) [] n2 (drop n1 (bits_of_bytes F))) BitWriter_init"
        using fe by blast
      have "n2 \<le> length (drop n1 (bits_of_bytes F))" using first_end_bound [OF n2] by simp
      then have "kept_bits (need ke) [] n2 (drop n1 (bits_of_bytes F))
          = take (n2 - length E) (drop n1 (bits_of_bytes F))"
        unfolding kept_bits_def nke by (simp add: min_def)
      then show ?thesis using ps pe ne rs re fs1 Some n2 f2 w
        by (simp add: unwrap_file_bits_def Let_def)
    qed
  qed
qed


text \<open>
  Evaluating the seeding recurrence by rewriting needs every product reduced modulo
  \<open>2^64\<close> as it is formed: \<open>norm64\<close> is the identity on 64-bit words and marks where.
\<close>

definition norm64 :: "64 word \<Rightarrow> 64 word" where
  "norm64 x = x"

lemma word64_of_nat_mod: "(word_of_nat (m mod 2 ^ 64) :: 64 word) = word_of_nat m"
  by (simp add: word_of_nat_eq_iff take_bit_eq_mod)

lemma norm64_numeral: "norm64 (numeral n) = word_of_nat (numeral n mod 18446744073709551616)"
proof -
  have e: "(18446744073709551616::nat) = 2 ^ 64" by simp
  show ?thesis unfolding e word64_of_nat_mod norm64_def by simp
qed

lemma mt_fill_norm:
  "mt_fill n i x =
     (if n = 0 then []
      else x # mt_fill (n - 1) (i + 1)
                 (norm64 (6364136223846793005 * (x XOR drop_bit 62 x) + of_nat (i + 1))))"
  by (subst mt_fill.simps) (simp add: norm64_def)

lemma write_bit_flush:
  "w_bit_off w = 7 \<Longrightarrow> write_bit b w =
     \<lparr>w_out = w_out w @ [w_acc w OR (b AND 1)], w_acc = 0, w_bit_off = 0\<rparr>"
  by (simp add: write_bit_def Let_def flush_byte_def)

lemma write_bit_noflush:
  "w_bit_off w \<noteq> 7 \<Longrightarrow> write_bit b w =
     \<lparr>w_out = w_out w, w_acc = w_acc w OR push_bit (7 - unat (w_bit_off w)) (b AND 1),
      w_bit_off = w_bit_off w + 1\<rparr>"
  by (simp add: write_bit_def Let_def flush_byte_def off_plus_one_8)

lemma gen_bytes_length: "length (fst (gen_bytes n rng)) = n"
proof (induction n arbitrary: rng)
  case 0
  then show ?case by (subst gen_bytes.simps) simp
next
  case (Suc n)
  obtain v rng1 where m: "mt_next rng = (v, rng1)" by (cases "mt_next rng")
  obtain bs rng2 where g: "gen_bytes n rng1 = (bs, rng2)" by (cases "gen_bytes n rng1")
  have "length bs = n" using Suc [of rng1] g by simp
  then show ?case using m g by (subst gen_bytes.simps) simp
qed

lemma write_full_bytes_spec:
  "writer_ok w \<Longrightarrow> writer_ok (write_full_bytes bytes w) \<and>
     written_bits (write_full_bytes bytes w) = written_bits w @ bits_of_bytes bytes"
  by (simp add: write_full_bytes_as_bits written_bits_write_bytes_as_bits writer_ok_write_bytes_as_bits)

lemma dummy_chunks_spec:
  "writer_ok bw \<Longrightarrow>
   \<exists>D. length D = 8 * remaining \<and> writer_ok (fst (dummy_chunks remaining bw rng)) \<and>
       written_bits (fst (dummy_chunks remaining bw rng)) = written_bits bw @ D"
proof (induction remaining bw rng rule: dummy_chunks.induct)
  case (1 remaining bw rng)
  show ?case
  proof (cases "remaining > 0")
    case False
    then show ?thesis using "1.prems" by (subst (1 2) dummy_chunks.simps) simp
  next
    case True
    define chunk where "chunk = min remaining DUMMY_BUF"
    obtain tmp rng' where g: "gen_bytes chunk rng = (tmp, rng')" by (cases "gen_bytes chunk rng")
    have lt: "length tmp = chunk" using gen_bytes_length [of chunk rng] g by simp
    have cl: "chunk \<le> remaining" by (simp add: chunk_def)
    note w = write_full_bytes_spec [OF "1.prems", of tmp]
    from "1.IH" [OF True chunk_def g [symmetric] w [THEN conjunct1]] obtain D where
      D: "length D = 8 * (remaining - chunk)"
        "writer_ok (fst (dummy_chunks (remaining - chunk) (write_full_bytes tmp bw) rng'))"
        "written_bits (fst (dummy_chunks (remaining - chunk) (write_full_bytes tmp bw) rng'))
           = written_bits (write_full_bytes tmp bw) @ D"
      by blast
    have st: "dummy_chunks remaining bw rng = dummy_chunks (remaining - chunk) (write_full_bytes tmp bw) rng'"
      using True g by (subst dummy_chunks.simps) (simp add: chunk_def Let_def)
    have "length (bits_of_bytes tmp @ D) = 8 * remaining" using D(1) lt cl by simp
    then show ?thesis
      unfolding st using D(2,3) w by (intro exI [of _ "bits_of_bytes tmp @ D"]) simp
  qed
qed

lemma write_dummy_bits_spec:
  assumes "writer_ok bw"
  shows "\<exists>D. length D = nbits \<and> writer_ok (fst (write_dummy_bits bw nbits rng)) \<and>
             written_bits (fst (write_dummy_bits bw nbits rng)) = written_bits bw @ D"
proof (cases "nbits = 0")
  case True
  then show ?thesis using assms by (simp add: write_dummy_bits_def)
next
  case False
  obtain bw1 rng1 where dc: "dummy_chunks (nbits div 8) bw rng = (bw1, rng1)"
    by (cases "dummy_chunks (nbits div 8) bw rng")
  from dummy_chunks_spec [OF assms, of "nbits div 8" rng] obtain D where
    D: "length D = 8 * (nbits div 8)" "writer_ok bw1" "written_bits bw1 = written_bits bw @ D"
    using dc by auto
  show ?thesis
  proof (cases "nbits mod 8 = 0")
    case True
    then have "length D = nbits" using D(1) by presburger
    then show ?thesis using False True dc D by (auto simp: write_dummy_bits_def Let_def)
  next
    case nz: False
    obtain v rng2 where m: "mt_next rng1 = (v, rng2)" by (cases "mt_next rng1")
    let ?T = "map (\<lambda>b. drop_bit b (ucast v :: byte) AND 1) (rev [8 - nbits mod 8..<8])"
    have r: "write_dummy_bits bw nbits rng = (fold write_bit ?T bw1, rng2)"
      using False nz dc m by (simp add: write_dummy_bits_def Let_def fold_map comp_def)
    have "length (D @ map (\<lambda>b. b AND 1) ?T) = 8 * (nbits div 8) + nbits mod 8"
      using D(1) by simp
    then have "length (D @ map (\<lambda>b. b AND 1) ?T) = nbits" by (simp only: mult_div_mod_eq)
    then show ?thesis
      unfolding r using D written_bits_fold_write_bit [OF D(2), of ?T] writer_ok_fold_write_bit [OF D(2), of ?T]
      by (intro exI [of _ "D @ map (\<lambda>b. b AND 1) ?T"]) simp
  qed
qed

lemma copy_input_spec:
  "writer_ok bw \<Longrightarrow> writer_ok (copy_input fin bw) \<and>
     written_bits (copy_input fin bw) = written_bits bw @ bits_of_bytes fin"
proof (induction fin bw rule: copy_input.induct)
  case (1 fin bw)
  show ?case
  proof (cases "take IO_BUF fin = []")
    case True
    then have "fin = []" using IO_BUF_pos by (cases fin) auto
    then show ?thesis using "1.prems" by (subst (1 2) copy_input.simps) simp
  next
    case False
    note w = write_full_bytes_spec [OF "1.prems", of "take IO_BUF fin"]
    from "1.IH" [OF refl False w [THEN conjunct1]]
    have ih: "writer_ok (copy_input (drop IO_BUF fin) (write_full_bytes (take IO_BUF fin) bw))"
      "written_bits (copy_input (drop IO_BUF fin) (write_full_bytes (take IO_BUF fin) bw))
         = written_bits (write_full_bytes (take IO_BUF fin) bw) @ bits_of_bytes (drop IO_BUF fin)"
      by simp_all
    have st: "copy_input fin bw = copy_input (drop IO_BUF fin) (write_full_bytes (take IO_BUF fin) bw)"
      using False by (subst copy_input.simps) (simp add: Let_def)
    have "bits_of_bytes (take IO_BUF fin) @ bits_of_bytes (drop IO_BUF fin) = bits_of_bytes fin"
      by (simp flip: bits_of_bytes_simps(3))
    then show ?thesis unfolding st using ih w by simp
  qed
qed

lemma pad_loop_spec:
  "writer_ok w \<Longrightarrow>
   \<exists>Z. writer_ok (pad_loop w) \<and> w_bit_off (pad_loop w) = 0 \<and>
       written_bits (pad_loop w) = written_bits w @ Z \<and>
       length Z = (8 - unat (w_bit_off w)) mod 8"
proof (induction "8 - unat (w_bit_off w)" arbitrary: w rule: less_induct)
  case less
  have n: "unat (w_bit_off w) < 8" using less.prems by (simp add: writer_ok_def)
  show ?case
  proof (cases "w_bit_off w = 0")
    case True
    then show ?thesis using less.prems by (subst (1 2 3) pad_loop.simps) simp
  next
    case False
    then have n0: "0 < unat (w_bit_off w)" by (simp add: unat_gt_0)
    let ?w1 = "write_bit 0 w"
    have ok1: "writer_ok ?w1" by (rule writer_ok_write_bit [OF less.prems])
    have wb: "written_bits ?w1 = written_bits w @ [0]"
      using written_bits_write_bit [OF less.prems, of 0] by simp
    have st: "pad_loop w = pad_loop ?w1" using False by (subst pad_loop.simps) simp
    show ?thesis
    proof (cases "w_bit_off w = 7")
      case True
      then have z: "w_bit_off ?w1 = 0" by (simp add: write_bit_flush)
      then have "pad_loop ?w1 = ?w1" by (subst pad_loop.simps) simp
      then show ?thesis unfolding st using ok1 wb z True
        by (intro exI [of _ "[0]"]) simp
    next
      case n7: False
      then have o1: "w_bit_off ?w1 = w_bit_off w + 1" by (simp add: write_bit_noflush)
      have u1: "unat (w_bit_off ?w1) = Suc (unat (w_bit_off w))" unfolding o1 by (rule unat_off_Suc [OF n])
      then have "8 - unat (w_bit_off ?w1) < 8 - unat (w_bit_off w)" using n by simp
      from less.hyps [OF this ok1] obtain Z where
        Z: "writer_ok (pad_loop ?w1)" "w_bit_off (pad_loop ?w1) = 0"
           "written_bits (pad_loop ?w1) = written_bits ?w1 @ Z"
           "length Z = (8 - unat (w_bit_off ?w1)) mod 8"
        by blast
      have "length (0 # Z) = (8 - unat (w_bit_off w)) mod 8" using Z(4) u1 n n0 by simp
      then show ?thesis unfolding st using Z(1,2,3) wb
        by (intro exI [of _ "0 # Z"]) simp
    qed
  qed
qed

lemma pad_to_byte_spec:
  assumes "writer_ok w"
  shows "\<exists>Z. bits_of_bytes (w_out (pad_to_byte w)) = written_bits w @ Z \<and>
             length Z = (8 - unat (w_bit_off w)) mod 8"
proof (cases "w_bit_off w = 0")
  case True
  then show ?thesis by (simp add: pad_to_byte_def written_bits_def)
next
  case False
  from pad_loop_spec [OF assms] obtain Z where
    "w_bit_off (pad_loop w) = 0" "written_bits (pad_loop w) = written_bits w @ Z"
    "length Z = (8 - unat (w_bit_off w)) mod 8" by blast
  then show ?thesis using False by (intro exI [of _ Z]) (simp add: pad_to_byte_def written_bits_def)
qed

lemma parsed_bits_and_one:
  "parse_bitstring s = Some v \<Longrightarrow> map (\<lambda>b. b AND 1) v = v"
proof (cases s)
  case None
  then show "parse_bitstring s = Some v \<Longrightarrow> map (\<lambda>b. b AND 1) v = v" by (simp add: parse_bitstring_def)
next
  case (Some cs)
  assume "parse_bitstring s = Some v"
  then have "v = map (\<lambda>c. if c = CHR ''0'' then 0 else 1) cs"
    using Some by (simp add: parse_bitstring_Some split: if_splits)
  then show "map (\<lambda>b. b AND 1) v = v" by (simp add: comp_def if_distrib cong: if_cong)
qed

lemma write_bits_spec:
  "writer_ok w \<Longrightarrow> writer_ok (write_bits bs w) \<and>
     written_bits (write_bits bs w) = written_bits w @ map (\<lambda>b. b AND 1) bs"
  by (simp add: write_bits_def writer_ok_fold_write_bit written_bits_fold_write_bit)

lemma wrap_spec:
  assumes ps: "parse_bitstring start_flag_bits = Some S" and pe: "parse_bitstring end_flag_bits = Some E"
  shows "\<exists>F L R. wrap_file_bits (Some input) True start_flag_bits end_flag_bits dl dr seed entropy
                  = (0, Some F) \<and>
           length L = dl \<and> length R = dr + (8 - (dl + length S + 8 * length input + length E + dr) mod 8) mod 8 \<and>
           bits_of_bytes F = L @ S @ bits_of_bytes input @ E @ R"
proof -
  define rng where "rng = (if seed = 0 then entropy else mt_seed (ucast seed))"
  obtain bw1 rng1 where d1: "write_dummy_bits BitWriter_init dl rng = (bw1, rng1)"
    by (cases "write_dummy_bits BitWriter_init dl rng")
  have wi: "written_bits BitWriter_init = []" by (simp add: written_bits_def BitWriter_init_def)
  from write_dummy_bits_spec [OF writer_ok_init, of dl rng] obtain L where
    L: "length L = dl" "writer_ok bw1" "written_bits bw1 = L"
    unfolding d1 wi by auto
  define bw2 where "bw2 = (if S \<noteq> [] then write_bits S bw1 else bw1)"
  have w2: "writer_ok bw2" "written_bits bw2 = L @ S"
    using write_bits_spec [OF L(2), of S] L parsed_bits_and_one [OF ps]
    by (auto simp: bw2_def)
  define bw3 where "bw3 = copy_input input bw2"
  have w3: "writer_ok bw3" "written_bits bw3 = L @ S @ bits_of_bytes input"
    using copy_input_spec [OF w2(1), of input] w2(2) by (simp_all add: bw3_def)
  define bw4 where "bw4 = (if E \<noteq> [] then write_bits E bw3 else bw3)"
  have w4: "writer_ok bw4" "written_bits bw4 = L @ S @ bits_of_bytes input @ E"
    using write_bits_spec [OF w3(1), of E] w3 parsed_bits_and_one [OF pe]
    by (auto simp: bw4_def)
  obtain bw5 rng2 where d2: "write_dummy_bits bw4 dr rng1 = (bw5, rng2)"
    by (cases "write_dummy_bits bw4 dr rng1")
  from write_dummy_bits_spec [OF w4(1), of dr rng1] obtain D where
    D: "length D = dr" "writer_ok bw5" "written_bits bw5 = (L @ S @ bits_of_bytes input @ E) @ D"
    using d2 w4(2) by auto
  from pad_to_byte_spec [OF D(2)] obtain Z where
    Z: "bits_of_bytes (w_out (pad_to_byte bw5)) = written_bits bw5 @ Z"
       "length Z = (8 - unat (w_bit_off bw5)) mod 8" by blast
  have "length (written_bits bw5) = 8 * length (w_out bw5) + unat (w_bit_off bw5)"
    by (rule length_written_bits [OF D(2)])
  moreover have "unat (w_bit_off bw5) < 8" using D(2) by (simp add: writer_ok_def)
  ultimately have "unat (w_bit_off bw5) = length (written_bits bw5) mod 8" by simp
  then have off: "unat (w_bit_off bw5) = (dl + length S + 8 * length input + length E + dr) mod 8"
    unfolding D(3) using L(1) D(1) by (simp add: add.assoc)
  have "wrap_file_bits (Some input) True start_flag_bits end_flag_bits dl dr seed entropy
          = (0, Some (w_out (pad_to_byte bw5)))"
    using ps pe d1 d2 [unfolded bw4_def bw3_def bw2_def]
    by (simp add: wrap_file_bits_def Let_def rng_def [symmetric] split del: if_split)
  moreover have "length (D @ Z) = dr + (8 - (dl + length S + 8 * length input + length E + dr) mod 8) mod 8"
    using D(1) Z(2) off by simp
  moreover have "bits_of_bytes (w_out (pad_to_byte bw5)) = L @ S @ bits_of_bytes input @ E @ (D @ Z)"
    using Z(1) D(3) by simp
  ultimately show ?thesis using L(1) by blast
qed

text \<open>The generator seeded with 42: its first two outputs.\<close>

definition seed42_after_1 :: mt19937_64 where
  "seed42_after_1 = snd (mt_next (mt_seed 42))"

definition seed42_after_2 :: mt19937_64 where
  "seed42_after_2 = snd (mt_next seed42_after_1)"

lemma mt_first_42: "mt_next (mt_seed 42) = (13930160852258120406, seed42_after_1)"
proof -
  have "fst (mt_next (mt_seed 42)) = 13930160852258120406"
    by (simp add: mt_seed_def mt_fill_norm norm64_numeral mt_next_def mt_temper_def Let_def)
  then show ?thesis by (simp add: seed42_after_1_def prod_eq_iff)
qed

lemma mt_second_42: "mt_next seed42_after_1 = (11788048577503494824, seed42_after_2)"
proof -
  have "fst (mt_next (snd (mt_next (mt_seed 42)))) = 11788048577503494824"
    by (simp add: mt_seed_def mt_fill_norm norm64_numeral mt_next_def mt_temper_def Let_def)
  then show ?thesis by (simp add: seed42_after_1_def seed42_after_2_def prod_eq_iff)
qed

lemma rev_upt_0_8: "rev [0..<8] = [7, 6, 5, 4, 3, 2, 1, 0::nat]" by code_simp
lemma rev_upt_1_8: "rev [Suc 0..<8] = [7, 6, 5, 4, 3, 2, 1::nat]" by code_simp
lemma rev_upt_3_8: "rev [3..<8] = [7, 6, 5, 4, 3::nat]" by code_simp

lemmas writer_eval = write_bits_def write_bit_def flush_byte_def Let_def

definition pattern_bits :: "string option \<Rightarrow> byte list" where
  "pattern_bits s = (case parse_bitstring s of None \<Rightarrow> [] | Some v \<Rightarrow> v)"

lemma scenario_E_wrap:
  "wrap_file_bits (Some [0xAA, 0xBB, 0xCC]) True (Some ''10101010'') (Some ''01010101'') 5 7 42 []
     = (0, Some [0xD5, 0x55, 0x55, 0xDE, 0x62, 0xAD, 0x40])"
proof -
  have d1: "write_dummy_bits BitWriter_init 5 (mt_seed 42)
              = (\<lparr>w_out = [], w_acc = 208, w_bit_off = 5\<rparr>, seed42_after_1)"
  proof -
    have "write_dummy_bits BitWriter_init 5 (mt_seed 42)
        = (write_bit 0 (write_bit 1 (write_bit 0 (write_bit 1 (write_bit 1 BitWriter_init)))),
           seed42_after_1)"
      by (simp add: write_dummy_bits_def dummy_chunks.simps Let_def mt_first_42)
    then show ?thesis by (simp add: writer_eval BitWriter_init_def)
  qed
  have s: "write_bits [1, 0, 1, 0, 1, 0, 1, 0] \<lparr>w_out = [], w_acc = 208, w_bit_off = 5\<rparr>
             = \<lparr>w_out = [213], w_acc = 80, w_bit_off = 5\<rparr>"
    by (simp add: writer_eval)
  have c: "copy_input [0xAA, 0xBB, 0xCC] \<lparr>w_out = [213], w_acc = 80, w_bit_off = 5\<rparr>
             = \<lparr>w_out = [213, 85, 85, 222], w_acc = 96, w_bit_off = 5\<rparr>"
  proof -
    have "copy_input [0xAA, 0xBB, 0xCC] \<lparr>w_out = [213], w_acc = 80, w_bit_off = 5\<rparr>
       = write_bytes_as_bits [0xAA, 0xBB, 0xCC] \<lparr>w_out = [213], w_acc = 80, w_bit_off = 5\<rparr>"
      by (simp add: copy_input.simps IO_BUF_def write_full_bytes_def Let_def
          del: write_bytes_as_bits.simps)
    then show ?thesis by (simp add: rev_upt_0_8 writer_eval)
  qed
  have e: "write_bits [0, 1, 0, 1, 0, 1, 0, 1] \<lparr>w_out = [213, 85, 85, 222], w_acc = 96, w_bit_off = 5\<rparr>
             = \<lparr>w_out = [213, 85, 85, 222, 98], w_acc = 168, w_bit_off = 5\<rparr>"
    by (simp add: writer_eval)
  have d2: "write_dummy_bits \<lparr>w_out = [213, 85, 85, 222, 98], w_acc = 168, w_bit_off = 5\<rparr> 7 seed42_after_1
              = (\<lparr>w_out = [213, 85, 85, 222, 98, 173], w_acc = 64, w_bit_off = 4\<rparr>, seed42_after_2)"
  proof -
    have "write_dummy_bits \<lparr>w_out = [213, 85, 85, 222, 98], w_acc = 168, w_bit_off = 5\<rparr> 7 seed42_after_1
        = (fold write_bit [1, 0, 1, 0, 1, 0, 0] \<lparr>w_out = [213, 85, 85, 222, 98], w_acc = 168, w_bit_off = 5\<rparr>,
           seed42_after_2)"
      by (simp add: write_dummy_bits_def dummy_chunks.simps Let_def mt_second_42 rev_upt_1_8)
    then show ?thesis by (simp add: writer_eval)
  qed
  have p: "pad_to_byte \<lparr>w_out = [213, 85, 85, 222, 98, 173], w_acc = 64, w_bit_off = 4\<rparr>
             = \<lparr>w_out = [213, 85, 85, 222, 98, 173, 64], w_acc = 0, w_bit_off = 0\<rparr>"
    by (simp add: pad_to_byte_def pad_loop.simps writer_eval)
  show ?thesis
    by (simp add: wrap_file_bits_def parse_bitstring_Some d1 s c e d2 p)
qed

lemma scenario_E_bits:
  "bits_of_bytes [0xD5, 0x55, 0x55, 0xDE, 0x62, 0xAD, 0x40 :: byte] =
     [1, 1, 0, 1, 0, 1, 0, 1, 0, 1, 0, 1, 0, 1, 0, 1, 0, 1, 0, 1, 0, 1, 0, 1, 1,
      1, 0, 1, 1, 1, 1, 0, 0, 1, 1, 0, 0, 0, 1, 0, 1, 0, 1, 0, 1, 1, 0, 1, 0, 1,
      0, 0, 0, 0, 0, 0]"
  by (simp add: byte_bits_unfold)

lemma unwrap_found:
  assumes "parse_bitstring start_flag_bits = Some S" "parse_bitstring end_flag_bits = Some E"
    and "S \<noteq> []" "E \<noteq> []"
    and f1: "first_end S [] (bits_of_bytes F) = Some n1"
    and f2: "first_end E [] (drop n1 (bits_of_bytes F)) = Some n2"
    and w: "w_out (pad_to_byte (write_bits (take (n2 - length E) (drop n1 (bits_of_bytes F)))
              BitWriter_init)) = out"
  shows "unwrap_file_bits (Some F) True start_flag_bits end_flag_bits
           = Some \<lparr>u_ret = 0, u_out = Some out, g_last_start_flag_pos = n1 - length S,
                   g_last_end_flag_pos = n1 + n2 - length E\<rparr>"
  using unwrap_spec [OF assms(1-4), of F] unfolding f1 option.case f2 w by auto

lemma scenario_E_unwrap:
  "unwrap_file_bits (Some [0xD5, 0x55, 0x55, 0xDE, 0x62, 0xAD, 0x40]) True
       (Some ''10101010'') (Some ''01010101'')
     = Some \<lparr>u_ret = 0, u_out = Some [0x80], g_last_start_flag_pos = 1, g_last_end_flag_pos = 10\<rparr>"
proof -
  have ps: "parse_bitstring (Some ''10101010'') = Some [1, 0, 1, 0, 1, 0, 1, 0]"
    and pe: "parse_bitstring (Some ''01010101'') = Some [0, 1, 0, 1, 0, 1, 0, 1]"
    by (simp_all add: parse_bitstring_Some)
  have f1: "first_end [1, 0, 1, 0, 1, 0, 1, 0 :: byte] []
              (bits_of_bytes [0xD5, 0x55, 0x55, 0xDE, 0x62, 0xAD, 0x40]) = Some 9"
    unfolding scenario_E_bits by (simp add: suffix_to_prefix)
  have f2: "first_end [0, 1, 0, 1, 0, 1, 0, 1 :: byte] []
              (drop 9 (bits_of_bytes [0xD5, 0x55, 0x55, 0xDE, 0x62, 0xAD, 0x40])) = Some 9"
    unfolding scenario_E_bits by (simp add: suffix_to_prefix)
  have w: "w_out (pad_to_byte (write_bits
             (take (9 - length [0, 1, 0, 1, 0, 1, 0, 1 :: byte])
                (drop 9 (bits_of_bytes [0xD5, 0x55, 0x55, 0xDE, 0x62, 0xAD, 0x40]))) BitWriter_init))
           = [0x80]"
    unfolding scenario_E_bits
    by (simp add: pad_to_byte_def pad_loop.simps writer_eval BitWriter_init_def)
  from unwrap_found [OF ps pe _ _ f1 f2 w] show ?thesis by simp
qed


lemma bits_of_bytes_and_one: "map (\<lambda>b. b AND 1) (bits_of_bytes bs) = bits_of_bytes bs"
  by (induction bs) (simp_all add: byte_bits_and_one)

lemma pack_bits_of_bytes:
  "w_out (pad_to_byte (write_bits (bits_of_bytes bs) BitWriter_init)) = bs"
proof -
  let ?w = "write_bits (bits_of_bytes bs) BitWriter_init"
  let ?w' = "\<lparr>w_out = bs, w_acc = 0, w_bit_off = 0\<rparr>"
  have wi: "written_bits BitWriter_init = []" by (simp add: written_bits_def BitWriter_init_def)
  have ok: "writer_ok ?w" and wb: "written_bits ?w = bits_of_bytes bs"
    using write_bits_spec [OF writer_ok_init, of "bits_of_bytes bs"]
    by (simp_all add: wi bits_of_bytes_and_one)
  have ok': "writer_ok ?w'" and wb': "written_bits ?w' = bits_of_bytes bs"
    by (simp_all add: writer_ok_def written_bits_def)
  have "?w = ?w'" by (rule writer_determined [OF ok ok']) (simp add: wb wb')
  then show ?thesis by (simp add: pad_to_byte_def)
qed

lemma is_first_end_append:
  assumes "is_first_end p xs n"
  shows "is_first_end p (xs @ ys) n"
proof -
  have n: "n \<le> length xs" using assms by (simp add: is_first_end_def)
  then have "take m (xs @ ys) = take m xs" if "m \<le> n" for m using that by simp
  then show ?thesis using assms n by (auto simp: is_first_end_def)
qed

lemma good_pattern_bits:
  assumes "\<not> bad_pattern s"
  shows "parse_bitstring s = Some (pattern_bits s) \<and> pattern_bits s \<noteq> []"
  using assms by (cases "parse_bitstring s") (auto simp: bad_pattern_parse pattern_bits_def)

lemma find_end_missing:
  assumes "reader_ok br" "kmp_inv k t" "length tail = min (length t) (need k)"
    and "first_end (k_pat k) t (rem_bits br) = None" and "writer_ok bw"
  shows "\<exists>bw' tail' i'. find_end br k bw tail idx = Some (False, bw', tail', i') \<and> writer_ok bw' \<and>
           written_bits bw' @ map (\<lambda>b. b AND 1) tail'
             = written_bits bw @ map (\<lambda>b. b AND 1) (tail @ rem_bits br) \<and>
           length tail' = min (length t + length (rem_bits br)) (need k)"
  using assms
proof (induction "rem_bits br" arbitrary: br k t idx bw tail)
  case Nil
  then have "fst (next_bit br) = None" using next_bit_spec [of br] by simp
  then obtain br' where "next_bit br = (None, br')" by (cases "next_bit br") auto
  then have "find_end br k bw tail idx = Some (False, bw, tail, idx)"
    by (subst find_end.simps) simp
  then show ?case using Nil(1) [symmetric] Nil.prems by simp
next
  case (Cons b bs)
  from Cons(2) [symmetric] obtain r1 where
    nb: "next_bit br = (Some b, r1)" and ok1: "reader_ok r1" and rb1: "rem_bits r1 = bs"
    using next_bit_spec [OF Cons.prems(1)] by blast
  from feed_correct [OF Cons.prems(2), of b] obtain k1 where
    f: "feed k b = Some (suffix (k_pat k) (t @ [b]), k1)" and i1: "kmp_inv k1 (t @ [b])"
    and p1: "k_pat k1 = k_pat k" by blast
  have nk: "need k1 = need k" using p1 by (simp add: need_def)
  note lt = Cons.prems(3)
  have fe0: "first_end (k_pat k) t (b # bs) = None" using Cons.prems(4) Cons(2) by simp
  then have ns: "\<not> suffix (k_pat k) (t @ [b])" by (auto split: if_splits)
  have fe1: "first_end (k_pat k1) (t @ [b]) (rem_bits r1) = None"
    using fe0 ns unfolding p1 rb1 by simp
  show ?case
  proof (cases "length (tail @ [b]) > need k")
    case gt: True
    then have le: "length tail = need k" using lt by simp
    obtain x tl' where tc: "tail @ [b] = x # tl'" by (cases "tail @ [b]") auto
    then have ltl: "length tl' = length tail" by (metis length_Cons length_append_singleton nat.inject)
    have st: "find_end br k bw tail idx = find_end r1 k1 (write_bit x bw) tl' (Suc idx)"
      using nb f ns gt tc by (subst find_end.simps) (simp add: Let_def nk)
    have l1: "length tl' = min (length (t @ [b])) (need k1)" using ltl le lt nk by simp
    have okw: "writer_ok (write_bit x bw)" using Cons.prems(5) by (rule writer_ok_write_bit)
    from Cons(1) [OF rb1 [symmetric] ok1 i1 l1 fe1 okw, of "Suc idx"] obtain bw' tail' i' where
      r: "find_end r1 k1 (write_bit x bw) tl' (Suc idx) = Some (False, bw', tail', i')"
      and ok': "writer_ok bw'"
      and wb: "written_bits bw' @ map (\<lambda>b. b AND 1) tail'
             = written_bits (write_bit x bw) @ map (\<lambda>b. b AND 1) (tl' @ rem_bits r1)"
      and ln: "length tail' = min (length (t @ [b]) + length (rem_bits r1)) (need k1)"
      by blast
    have "written_bits (write_bit x bw) @ map (\<lambda>b. b AND 1) (tl' @ bs)
        = written_bits bw @ map (\<lambda>b. b AND 1) ((x # tl') @ bs)"
      using written_bits_write_bit [OF Cons.prems(5), of x] by simp
    also have "\<dots> = written_bits bw @ map (\<lambda>b. b AND 1) (tail @ b # bs)"
      unfolding tc [symmetric] by simp
    finally have e: "written_bits bw' @ map (\<lambda>b. b AND 1) tail'
        = written_bits bw @ map (\<lambda>b. b AND 1) (tail @ rem_bits br)"
      using wb unfolding rb1 Cons(2) [symmetric] by simp
    show ?thesis
      unfolding st using r ok' e ln unfolding rb1 nk Cons(2) [symmetric] by simp
  next
    case ngt: False
    have st: "find_end br k bw tail idx = find_end r1 k1 bw (tail @ [b]) (Suc idx)"
      using nb f ns ngt by (subst find_end.simps) (simp add: Let_def nk)
    have l1: "length (tail @ [b]) = min (length (t @ [b])) (need k1)" using ngt lt nk by auto
    from Cons(1) [OF rb1 [symmetric] ok1 i1 l1 fe1 Cons.prems(5), of "Suc idx"] obtain bw' tail' i' where
      r: "find_end r1 k1 bw (tail @ [b]) (Suc idx) = Some (False, bw', tail', i')"
      and ok': "writer_ok bw'"
      and wb: "written_bits bw' @ map (\<lambda>b. b AND 1) tail'
             = written_bits bw @ map (\<lambda>b. b AND 1) ((tail @ [b]) @ rem_bits r1)"
      and ln: "length tail' = min (length (t @ [b]) + length (rem_bits r1)) (need k1)"
      by blast
    show ?thesis
      unfolding st using r ok' wb ln unfolding rb1 nk Cons(2) [symmetric] by simp
  qed
qed

lemma whole_bytes_written:
  assumes "writer_ok w"
  shows "bits_of_bytes (w_out w) = take (8 * (length (written_bits w) div 8)) (written_bits w)"
proof -
  have "unat (w_bit_off w) < 8" using assms by (simp add: writer_ok_def)
  then have "length (written_bits w) div 8 = length (w_out w)"
    using length_written_bits [OF assms] by simp
  then show ?thesis by (simp add: written_bits_def)
qed

lemma unwrap_missing_end:
  assumes ps: "parse_bitstring start_flag_bits = Some S" and pe: "parse_bitstring end_flag_bits = Some E"
    and ne: "S \<noteq> []" "E \<noteq> []"
    and f1: "first_end S [] (bits_of_bytes F) = Some n1"
    and f2: "first_end E [] (drop n1 (bits_of_bytes F)) = None"
  shows "\<exists>out. unwrap_file_bits (Some F) True start_flag_bits end_flag_bits
            = Some \<lparr>u_ret = -4, u_out = Some out, g_last_start_flag_pos = n1 - length S,
                    g_last_end_flag_pos = 0\<rparr> \<and>
          bits_of_bytes out = take (8 * ((length (bits_of_bytes F) - n1 - length E) div 8))
                                   (drop n1 (bits_of_bytes F))"
proof -
  let ?rest = "drop n1 (bits_of_bytes F)"
  from reset_correct [OF ne(1)] obtain ks where
    rs: "reset S = Some ks" and invs: "kmp_inv ks []" and pks: "k_pat ks = S" by blast
  from reset_correct [OF ne(2)] obtain ke where
    re: "reset E = Some ke" and inve: "kmp_inv ke []" and pke: "k_pat ke = E" by blast
  let ?br = "BitReader_init F IO_BUF"
  have ok: "reader_ok ?br" and rb: "rem_bits ?br = bits_of_bytes F"
    using reader_init [OF IO_BUF_pos, of F] by simp_all
  from find_start_spec [OF ok invs, of 0] f1 obtain br1 where
    fs1: "find_start ?br ks 0 = Some (True, br1, n1)"
    and ok1: "reader_ok br1" and rb1: "rem_bits br1 = ?rest"
    unfolding pks rb by auto
  have l0: "length ([]::byte list) = min (length ([]::byte list)) (need ke)" by simp
  have f2': "first_end (k_pat ke) [] (rem_bits br1) = None" using f2 by (simp add: pke rb1)
  have nke: "need ke = length E" using pke by (simp add: need_def)
  from find_end_missing [OF ok1 inve l0 f2' writer_ok_init, of n1] obtain bw' tail' i' where
    fe: "find_end br1 ke BitWriter_init [] n1 = Some (False, bw', tail', i')"
    and ok': "writer_ok bw'"
    and wb: "written_bits bw' @ map (\<lambda>b. b AND 1) tail'
               = written_bits BitWriter_init @ map (\<lambda>b. b AND 1) ([] @ rem_bits br1)"
    and ln: "length tail' = min (length ([]::byte list) + length (rem_bits br1)) (need ke)"
    by blast
  have m: "map (\<lambda>b. b AND 1) ?rest = ?rest"
    using bits_of_bytes_and_one [of F] by (simp add: drop_map [symmetric])
  have wi: "written_bits BitWriter_init = []" by (simp add: written_bits_def BitWriter_init_def)
  have e: "written_bits bw' @ map (\<lambda>b. b AND 1) tail' = ?rest"
    using wb by (simp add: wi rb1 m)
  have lt: "length tail' = min (length ?rest) (length E)" using ln by (simp add: rb1 nke)
  have "written_bits bw' = take (length ?rest - length tail') ?rest"
  proof -
    have "length (written_bits bw') = length ?rest - length tail'"
      using arg_cong [OF e, of length] by simp
    then show ?thesis using e by (metis append_eq_conv_conj)
  qed
  then have w: "written_bits bw' = take (length ?rest - length E) ?rest"
    using lt by (simp add: min_def)
  have lw: "length (written_bits bw') = length (bits_of_bytes F) - n1 - length E"
    unfolding w by simp
  have "8 * ((length (bits_of_bytes F) - n1 - length E) div 8) \<le> length ?rest - length E"
    by simp
  then have o: "bits_of_bytes (w_out bw')
      = take (8 * ((length (bits_of_bytes F) - n1 - length E) div 8)) ?rest"
    using whole_bytes_written [OF ok'] unfolding lw unfolding w by (simp add: min_def)
  have "unwrap_file_bits (Some F) True start_flag_bits end_flag_bits
            = Some \<lparr>u_ret = -4, u_out = Some (w_out bw'), g_last_start_flag_pos = n1 - length S,
                    g_last_end_flag_pos = 0\<rparr>"
    using ps pe ne rs re fs1 fe by (simp add: unwrap_file_bits_def Let_def)
  then show ?thesis using o by blast
qed

lemma unwrap_missing_end_example:
  "unwrap_file_bits (Some [0xF0, 0xFF, 0xFF]) True (Some ''0000'') (Some ''00'')
     = Some \<lparr>u_ret = -4, u_out = Some [0xFF], g_last_start_flag_pos = 4, g_last_end_flag_pos = 0\<rparr>"
proof -
  have ps: "parse_bitstring (Some ''0000'') = Some [0, 0, 0, 0]"
    and pe: "parse_bitstring (Some ''00'') = Some [0, 0]"
    by (simp_all add: parse_bitstring_Some)
  have bits: "bits_of_bytes [0xF0, 0xFF, 0xFF :: byte]
      = [1, 1, 1, 1, 0, 0, 0, 0, 1, 1, 1, 1, 1, 1, 1, 1, 1, 1, 1, 1, 1, 1, 1, 1]"
    by (simp add: byte_bits_unfold)
  have f1: "first_end [0, 0, 0, 0 :: byte] [] (bits_of_bytes [0xF0, 0xFF, 0xFF]) = Some 8"
    unfolding bits by (simp add: suffix_to_prefix)
  have f2: "first_end [0, 0 :: byte] [] (drop 8 (bits_of_bytes [0xF0, 0xFF, 0xFF])) = None"
    unfolding bits by (simp add: suffix_to_prefix)
  from unwrap_missing_end [OF ps pe _ _ f1 f2] obtain out where
    u: "unwrap_file_bits (Some [0xF0, 0xFF, 0xFF]) True (Some ''0000'') (Some ''00'')
            = Some \<lparr>u_ret = -4, u_out = Some out, g_last_start_flag_pos = 8 - length [0, 0, 0, 0 :: byte],
                    g_last_end_flag_pos = 0\<rparr>"
    and o: "bits_of_bytes out = take (8 * ((length (bits_of_bytes [0xF0, 0xFF, 0xFF :: byte]) - 8
                                             - length [0, 0 :: byte]) div 8))
                                   (drop 8 (bits_of_bytes [0xF0, 0xFF, 0xFF]))"
    by auto
  have "bits_of_bytes out = bits_of_bytes [0xFF]"
    unfolding o unfolding bits by (simp add: byte_bits_unfold)
  then have "out = [0xFF]" by (rule bits_of_bytes_inj)
  then show ?thesis using u by simp
qed

text \<open>
  Claim C8, as stated, fails in its last clause: the payload bits are written while the
  end pattern is searched, and nothing takes them back when the input ends first. For the
  input \<open>F0 FF FF\<close> with start \<open>0000\<close> and end \<open>00\<close> the call returns -4 and the output
  file holds the byte \<open>FF\<close>.
\<close>

theorem unwrap_missing_end_counterexample:
  "u_ret (the (unwrap_file_bits (Some [0xF0, 0xFF, 0xFF]) True (Some ''0000'') (Some ''00''))) = -4 \<and>
   u_out (the (unwrap_file_bits (Some [0xF0, 0xFF, 0xFF]) True (Some ''0000'') (Some ''00''))) = Some [0xFF] \<and>
   u_out (the (unwrap_file_bits (Some [0xF0, 0xFF, 0xFF]) True (Some ''0000'') (Some ''00''))) \<noteq> Some []"
  by (simp add: unwrap_missing_end_example)

text \<open>
  Claim C8, amended. With input and output files that open, \<^verbatim>\<open>unwrap_file_bits\<close> returns
  -3 exactly when a pattern is missing, empty or holds a character other than 0 and 1;
  with valid patterns it returns -4 exactly when the start pattern never occurs in the
  input bits, or it occurs and the end pattern never occurs in the bits after its first
  occurrence, and 0 otherwise. On a -3 return, and on a -4 return without a start match,
  nothing is written to the output. On a -4 return after a start match the output file
  holds the whole bytes made of the bits that follow the start pattern, the last
  \<open>|end|\<close> of them left out.
\<close>

theorem unwrap_error_codes:
  "\<exists>res. unwrap_file_bits (Some F) True start_flag_bits end_flag_bits = Some res \<and>
     (u_ret res = -3 \<longleftrightarrow> bad_pattern start_flag_bits \<or> bad_pattern end_flag_bits) \<and>
     (u_ret res = -3 \<longrightarrow> u_out res = Some []) \<and>
     (\<not> bad_pattern start_flag_bits \<and> \<not> bad_pattern end_flag_bits \<longrightarrow>
        (u_ret res = -4 \<longleftrightarrow>
           (\<forall>n1. \<not> is_first_end (pattern_bits start_flag_bits) (bits_of_bytes F) n1) \<or>
           (\<exists>n1. is_first_end (pattern_bits start_flag_bits) (bits_of_bytes F) n1 \<and>
                 (\<forall>n2. \<not> is_first_end (pattern_bits end_flag_bits)
                                          (drop n1 (bits_of_bytes F)) n2))) \<and>
        (u_ret res = 0 \<or> u_ret res = -4) \<and>
        ((\<forall>n1. \<not> is_first_end (pattern_bits start_flag_bits) (bits_of_bytes F) n1)
           \<longrightarrow> u_out res = Some []) \<and>
        (\<forall>n1. is_first_end (pattern_bits start_flag_bits) (bits_of_bytes F) n1 \<and>
               (\<forall>n2. \<not> is_first_end (pattern_bits end_flag_bits) (drop n1 (bits_of_bytes F)) n2)
           \<longrightarrow> (\<exists>out. u_out res = Some out \<and>
                   bits_of_bytes out =
                     take (8 * ((length (bits_of_bytes F) - n1 - length (pattern_bits end_flag_bits)) div 8))
                          (drop n1 (bits_of_bytes F)))))"
proof (cases "bad_pattern start_flag_bits \<or> bad_pattern end_flag_bits")
  case True
  then have "unwrap_file_bits (Some F) True start_flag_bits end_flag_bits
      = Some \<lparr>u_ret = -3, u_out = Some [], g_last_start_flag_pos = 0, g_last_end_flag_pos = 0\<rparr>"
    by (auto simp: bad_pattern_parse unwrap_file_bits_def split: option.splits)
  then show ?thesis using True by simp
next
  case False
  let ?S = "pattern_bits start_flag_bits" and ?E = "pattern_bits end_flag_bits"
  have ps: "parse_bitstring start_flag_bits = Some ?S" and nS: "?S \<noteq> []"
    and pe: "parse_bitstring end_flag_bits = Some ?E" and nE: "?E \<noteq> []"
    using False good_pattern_bits by auto
  from unwrap_spec [OF ps pe nS nE, of F] obtain res where
    r: "unwrap_file_bits (Some F) True start_flag_bits end_flag_bits = Some res"
    and c: "(case first_end ?S [] (bits_of_bytes F) of
       None \<Rightarrow> res = \<lparr>u_ret = -4, u_out = Some [], g_last_start_flag_pos = 0, g_last_end_flag_pos = 0\<rparr>
     | Some n1 \<Rightarrow>
        (case first_end ?E [] (drop n1 (bits_of_bytes F)) of
           None \<Rightarrow> u_ret res = -4 \<and> g_last_start_flag_pos res = n1 - length ?S \<and>
                   g_last_end_flag_pos res = 0
         | Some n2 \<Rightarrow>
             res = \<lparr>u_ret = 0,
                    u_out = Some (w_out (pad_to_byte (write_bits
                               (take (n2 - length ?E) (drop n1 (bits_of_bytes F))) BitWriter_init))),
                    g_last_start_flag_pos = n1 - length ?S,
                    g_last_end_flag_pos = n1 + n2 - length ?E\<rparr>))"
    by blast
  have u: "n = m" if "is_first_end p bs n" "is_first_end p bs m" for p :: "byte list" and bs n m
    using that unfolding is_first_end_def by (meson linorder_neqE_nat)
  show ?thesis
  proof (cases "first_end ?S [] (bits_of_bytes F)")
    case None
    then have "\<forall>n1. \<not> is_first_end ?S (bits_of_bytes F) n1"
      using first_end_is_first_end [OF nS, of "bits_of_bytes F"] by simp
    then show ?thesis using r c None False by auto
  next
    case (Some n1)
    then have i1: "is_first_end ?S (bits_of_bytes F) n1"
      using first_end_is_first_end [OF nS] by simp
    show ?thesis
    proof (cases "first_end ?E [] (drop n1 (bits_of_bytes F))")
      case None
      then have i2: "\<forall>n2. \<not> is_first_end ?E (drop n1 (bits_of_bytes F)) n2"
        using first_end_is_first_end [OF nE, of "drop n1 (bits_of_bytes F)"] by simp
      from unwrap_missing_end [OF ps pe nS nE Some None] r obtain out where
        o: "u_out res = Some out"
           "bits_of_bytes out = take (8 * ((length (bits_of_bytes F) - n1 - length ?E) div 8))
                                     (drop n1 (bits_of_bytes F))"
        by auto
      have o': "\<exists>out. u_out res = Some out \<and>
                   bits_of_bytes out = take (8 * ((length (bits_of_bytes F) - m - length ?E) div 8))
                                            (drop m (bits_of_bytes F))"
        if "is_first_end ?S (bits_of_bytes F) m" for m
        using u [OF that i1] o by simp
      have "u_ret res = -4" using c Some None by simp
      then show ?thesis using r False i1 i2 o' by auto
    next
      case n2: (Some n2)
      then have i2: "is_first_end ?E (drop n1 (bits_of_bytes F)) n2"
        using first_end_is_first_end [OF nE] by simp
      have n: "\<not> ((\<forall>n1. \<not> is_first_end ?S (bits_of_bytes F) n1) \<or>
           (\<exists>n1. is_first_end ?S (bits_of_bytes F) n1 \<and>
                 (\<forall>n2. \<not> is_first_end ?E (drop n1 (bits_of_bytes F)) n2)))"
        using i1 i2 u by blast
      have "u_ret res = 0" using c Some n2 by simp
      then show ?thesis using r False n by auto
    qed
  qed
qed

theorem unwrap_error_codes_witness:
  "\<not> bad_pattern (Some ''0000'') \<and> \<not> bad_pattern (Some ''00'') \<and> bad_pattern (Some ''10x1'') \<and>
   is_first_end (pattern_bits (Some ''0000'')) (bits_of_bytes [0xF0, 0xFF, 0xFF]) 8 \<and>
   (\<exists>res. unwrap_file_bits (Some [0xF0, 0xFF, 0xFF]) True (Some ''0000'') (Some ''00'') = Some res \<and>
          u_ret res = -4 \<and> u_out res = Some [0xFF]) \<and>
   (\<exists>res. unwrap_file_bits (Some [0xFF]) True (Some ''10x1'') (Some ''0'') = Some res \<and>
          u_ret res = -3 \<and> u_out res = Some [])"
proof -
  have g: "\<not> bad_pattern (Some ''0000'')" "\<not> bad_pattern (Some ''00'')" and b: "bad_pattern (Some ''10x1'')"
    by (simp_all add: bad_pattern_def)
  have p: "pattern_bits (Some ''0000'') = [0, 0, 0, 0]" "pattern_bits (Some ''00'') = [0, 0]"
    by (simp_all add: pattern_bits_def parse_bitstring_Some)
  have bits: "bits_of_bytes [0xF0, 0xFF, 0xFF :: byte]
      = [1, 1, 1, 1, 0, 0, 0, 0, 1, 1, 1, 1, 1, 1, 1, 1, 1, 1, 1, 1, 1, 1, 1, 1]"
    by (simp add: byte_bits_unfold)
  have "first_end [0, 0, 0, 0 :: byte] [] (bits_of_bytes [0xF0, 0xFF, 0xFF]) = Some 8"
    unfolding bits by (simp add: suffix_to_prefix)
  then have i1: "is_first_end [0, 0, 0, 0 :: byte] (bits_of_bytes [0xF0, 0xFF, 0xFF]) 8"
    using first_end_is_first_end [of "[0, 0, 0, 0 :: byte]"] by simp
  have "first_end [0, 0 :: byte] [] (drop 8 (bits_of_bytes [0xF0, 0xFF, 0xFF])) = None"
    unfolding bits by (simp add: suffix_to_prefix)
  then have i2: "\<forall>n2. \<not> is_first_end [0, 0 :: byte] (drop 8 (bits_of_bytes [0xF0, 0xFF, 0xFF])) n2"
    using first_end_is_first_end [of "[0, 0 :: byte]" "drop 8 (bits_of_bytes [0xF0, 0xFF, 0xFF])"] by simp
  from unwrap_error_codes [of "[0xF0, 0xFF, 0xFF]" "Some ''0000''" "Some ''00''"] obtain res where
    r: "unwrap_file_bits (Some [0xF0, 0xFF, 0xFF]) True (Some ''0000'') (Some ''00'') = Some res"
    and r4: "u_ret res = -4 \<longleftrightarrow>
           (\<forall>n1. \<not> is_first_end [0, 0, 0, 0 :: byte] (bits_of_bytes [0xF0, 0xFF, 0xFF]) n1) \<or>
           (\<exists>n1. is_first_end [0, 0, 0, 0 :: byte] (bits_of_bytes [0xF0, 0xFF, 0xFF]) n1 \<and>
                 (\<forall>n2. \<not> is_first_end [0, 0 :: byte] (drop n1 (bits_of_bytes [0xF0, 0xFF, 0xFF])) n2))"
    and ro: "\<forall>n1. is_first_end [0, 0, 0, 0 :: byte] (bits_of_bytes [0xF0, 0xFF, 0xFF]) n1 \<and>
               (\<forall>n2. \<not> is_first_end [0, 0 :: byte] (drop n1 (bits_of_bytes [0xF0, 0xFF, 0xFF])) n2)
           \<longrightarrow> (\<exists>out. u_out res = Some out \<and>
                   bits_of_bytes out =
                     take (8 * ((length (bits_of_bytes [0xF0, 0xFF, 0xFF :: byte]) - n1 - length [0, 0 :: byte]) div 8))
                          (drop n1 (bits_of_bytes [0xF0, 0xFF, 0xFF])))"
    using g unfolding p by blast
  have r4': "u_ret res = -4" using r4 i1 i2 by blast
  from ro i1 i2 obtain out where
    o: "u_out res = Some out"
    and ob: "bits_of_bytes out =
                     take (8 * ((length (bits_of_bytes [0xF0, 0xFF, 0xFF :: byte]) - 8 - length [0, 0 :: byte]) div 8))
                          (drop 8 (bits_of_bytes [0xF0, 0xFF, 0xFF]))"
    by blast
  have "bits_of_bytes out = bits_of_bytes [0xFF]"
    unfolding ob unfolding bits by (simp add: byte_bits_unfold)
  then have "out = [0xFF]" by (rule bits_of_bytes_inj)
  then have a: "\<exists>res. unwrap_file_bits (Some [0xF0, 0xFF, 0xFF]) True (Some ''0000'') (Some ''00'') = Some res \<and>
          u_ret res = -4 \<and> u_out res = Some [0xFF]"
    using r r4' o by blast
  from unwrap_error_codes [of "[0xFF]" "Some ''10x1''" "Some ''0''"] b
  have c: "\<exists>res. unwrap_file_bits (Some [0xFF]) True (Some ''10x1'') (Some ''0'') = Some res \<and>
          u_ret res = -3 \<and> u_out res = Some []" by blast
  have i1': "is_first_end (pattern_bits (Some ''0000'')) (bits_of_bytes [0xF0, 0xFF, 0xFF]) 8"
    using i1 unfolding p .
  show ?thesis using g b a c i1' by blast
qed

lemma wrap_no_dummy:
  assumes "parse_bitstring start_flag_bits = Some S" "parse_bitstring end_flag_bits = Some E"
    and "S \<noteq> []" "E \<noteq> []" and "seed \<noteq> 0"
  shows "wrap_file_bits (Some input) True start_flag_bits end_flag_bits 0 0 seed entropy
           = (0, Some (w_out (pad_to_byte (write_bits E (copy_input input (write_bits S BitWriter_init))))))"
  using assms by (simp add: wrap_file_bits_def write_dummy_bits_def)

lemma copy_input_small:
  "length input \<le> 8 \<Longrightarrow> input \<noteq> [] \<Longrightarrow> copy_input input w = write_full_bytes input w"
  by (subst copy_input.simps, subst copy_input.simps) (simp add: IO_BUF_def Let_def)

text \<open>
  Claim C2, as stated, fails: nothing keeps the end pattern out of the payload. The input
  byte \<open>00\<close> wrapped between the patterns \<open>1\<close> and \<open>0\<close> with no dummy bits unwraps to the
  empty file, since the first payload bit already is the end pattern.
\<close>

theorem round_trip_counterexample:
  "wrap_file_bits (Some [0x00]) True (Some ''1'') (Some ''0'') 0 0 1 [] = (0, Some [0x80, 0x00]) \<and>
   unwrap_file_bits (Some [0x80, 0x00]) True (Some ''1'') (Some ''0'')
     = Some \<lparr>u_ret = 0, u_out = Some [], g_last_start_flag_pos = 0, g_last_end_flag_pos = 1\<rparr> \<and>
   u_out (the (unwrap_file_bits (snd (wrap_file_bits (Some [0x00]) True (Some ''1'') (Some ''0'') 0 0 1 []))
                 True (Some ''1'') (Some ''0''))) \<noteq> Some [0x00]"
proof -
  have ps: "parse_bitstring (Some ''1'') = Some [1]" and pe: "parse_bitstring (Some ''0'') = Some [0]"
    by (simp_all add: parse_bitstring_Some)
  have "w_out (pad_to_byte (write_bits [0] (copy_input [0x00] (write_bits [1] BitWriter_init))))
        = [0x80, 0x00]"
    by (simp add: copy_input_small write_full_bytes_def rev_upt_0_8 pad_to_byte_def pad_loop.simps
        writer_eval BitWriter_init_def)
  then have w: "wrap_file_bits (Some [0x00]) True (Some ''1'') (Some ''0'') 0 0 1 [] = (0, Some [0x80, 0x00])"
    using wrap_no_dummy [OF ps pe, of 1 "[0x00]" "[]"] by simp
  have bits: "bits_of_bytes [0x80, 0x00 :: byte] = [1, 0, 0, 0, 0, 0, 0, 0, 0, 0, 0, 0, 0, 0, 0, 0]"
    by (simp add: byte_bits_unfold)
  have f1: "first_end [1 :: byte] [] (bits_of_bytes [0x80, 0x00]) = Some 1"
    unfolding bits by (simp add: suffix_to_prefix)
  have f2: "first_end [0 :: byte] [] (drop 1 (bits_of_bytes [0x80, 0x00])) = Some 1"
    unfolding bits by (simp add: suffix_to_prefix)
  have o: "w_out (pad_to_byte (write_bits (take (1 - length [0 :: byte]) (drop 1 (bits_of_bytes [0x80, 0x00])))
              BitWriter_init)) = []"
    by (simp add: pad_to_byte_def writer_eval BitWriter_init_def)
  from unwrap_found [OF ps pe _ _ f1 f2 o]
  have u: "unwrap_file_bits (Some [0x80, 0x00]) True (Some ''1'') (Some ''0'')
     = Some \<lparr>u_ret = 0, u_out = Some [], g_last_start_flag_pos = 0, g_last_end_flag_pos = 1\<rparr>"
    by simp
  show ?thesis by (simp add: w u)
qed

text \<open>
  Claim C2, amended. For every input file, every pair of non-empty 0/1 patterns and every
  dummy-bit counts and seed: if, in the wrapped bit stream, the first occurrence of the start
  pattern is the one written after the left dummy bits, and in the payload bits followed by
  the end pattern the first occurrence of the end pattern is that final one, then wrapping
  succeeds and unwrapping with the same patterns returns 0, reproduces the input bytes
  exactly and reports the number of bits before each sentinel.
\<close>

theorem wrap_unwrap_round_trip:
  assumes "\<not> bad_pattern start_flag_bits" "\<not> bad_pattern end_flag_bits"
    and "wrap_file_bits (Some input) True start_flag_bits end_flag_bits dl dr seed entropy = (ret, Some F)"
    and "is_first_end (pattern_bits start_flag_bits) (bits_of_bytes F)
           (dl + length (pattern_bits start_flag_bits))"
    and "is_first_end (pattern_bits end_flag_bits) (bits_of_bytes input @ pattern_bits end_flag_bits)
           (8 * length input + length (pattern_bits end_flag_bits))"
  shows "ret = 0 \<and>
         unwrap_file_bits (Some F) True start_flag_bits end_flag_bits
           = Some \<lparr>u_ret = 0, u_out = Some input, g_last_start_flag_pos = dl,
                   g_last_end_flag_pos = dl + length (pattern_bits start_flag_bits) + 8 * length input\<rparr>"
proof -
  let ?S = "pattern_bits start_flag_bits" and ?E = "pattern_bits end_flag_bits"
  let ?P = "bits_of_bytes input"
  have ps: "parse_bitstring start_flag_bits = Some ?S" and nS: "?S \<noteq> []"
    and pe: "parse_bitstring end_flag_bits = Some ?E" and nE: "?E \<noteq> []"
    using assms(1,2) good_pattern_bits by auto
  from wrap_spec [OF ps pe, of input dl dr seed entropy] obtain L R where
    r0: "ret = 0" and lL: "length L = dl" and bits: "bits_of_bytes F = L @ ?S @ ?P @ ?E @ R"
    using assms(3) by auto
  have f1: "first_end ?S [] (bits_of_bytes F) = Some (dl + length ?S)"
    using assms(4) first_end_is_first_end [OF nS] by simp
  have dr: "drop (dl + length ?S) (bits_of_bytes F) = (?P @ ?E) @ R"
    unfolding bits using lL by simp
  have "is_first_end ?E ((?P @ ?E) @ R) (8 * length input + length ?E)"
    by (rule is_first_end_append [OF assms(5)])
  then have f2: "first_end ?E [] (drop (dl + length ?S) (bits_of_bytes F)) = Some (8 * length input + length ?E)"
    unfolding dr using first_end_is_first_end [OF nE] by simp
  have "take (8 * length input + length ?E - length ?E) (drop (dl + length ?S) (bits_of_bytes F)) = ?P"
    unfolding dr by simp
  then have o: "w_out (pad_to_byte (write_bits
                  (take (8 * length input + length ?E - length ?E) (drop (dl + length ?S) (bits_of_bytes F)))
                  BitWriter_init)) = input"
    by (simp only: pack_bits_of_bytes)
  from unwrap_found [OF ps pe nS nE f1 f2 o] show ?thesis using r0 by simp
qed

theorem wrap_unwrap_round_trip_witness:
  "\<not> bad_pattern (Some ''10'') \<and> \<not> bad_pattern (Some ''01'') \<and>
   wrap_file_bits (Some [0xFF]) True (Some ''10'') (Some ''01'') 0 0 1 [] = (0, Some [0xBF, 0xD0]) \<and>
   is_first_end (pattern_bits (Some ''10'')) (bits_of_bytes [0xBF, 0xD0]) (0 + length (pattern_bits (Some ''10''))) \<and>
   is_first_end (pattern_bits (Some ''01'')) (bits_of_bytes [0xFF] @ pattern_bits (Some ''01''))
     (8 * length [0xFF :: byte] + length (pattern_bits (Some ''01''))) \<and>
   unwrap_file_bits (Some [0xBF, 0xD0]) True (Some ''10'') (Some ''01'')
     = Some \<lparr>u_ret = 0, u_out = Some [0xFF], g_last_start_flag_pos = 0, g_last_end_flag_pos = 10\<rparr>"
proof -
  have g: "\<not> bad_pattern (Some ''10'')" "\<not> bad_pattern (Some ''01'')"
    by (simp_all add: bad_pattern_def)
  have ps: "parse_bitstring (Some ''10'') = Some [1, 0]" and pe: "parse_bitstring (Some ''01'') = Some [0, 1]"
    by (simp_all add: parse_bitstring_Some)
  have p: "pattern_bits (Some ''10'') = [1, 0]" "pattern_bits (Some ''01'') = [0, 1]"
    by (simp_all add: pattern_bits_def ps pe)
  have "w_out (pad_to_byte (write_bits [0, 1] (copy_input [0xFF] (write_bits [1, 0] BitWriter_init))))
        = [0xBF, 0xD0]"
    by (simp add: copy_input_small write_full_bytes_def rev_upt_0_8 pad_to_byte_def pad_loop.simps
        writer_eval BitWriter_init_def)
  then have w: "wrap_file_bits (Some [0xFF]) True (Some ''10'') (Some ''01'') 0 0 1 [] = (0, Some [0xBF, 0xD0])"
    using wrap_no_dummy [OF ps pe, of 1 "[0xFF]" "[]"] by simp
  have b1: "bits_of_bytes [0xBF, 0xD0 :: byte] = [1, 0, 1, 1, 1, 1, 1, 1, 1, 1, 0, 1, 0, 0, 0, 0]"
    and b2: "bits_of_bytes [0xFF :: byte] = [1, 1, 1, 1, 1, 1, 1, 1]"
    by (simp_all add: byte_bits_unfold)
  have "first_end [1, 0 :: byte] [] (bits_of_bytes [0xBF, 0xD0]) = Some 2"
    unfolding b1 by (simp add: suffix_to_prefix)
  then have "is_first_end [1, 0 :: byte] (bits_of_bytes [0xBF, 0xD0]) 2"
    using first_end_is_first_end [of "[1, 0 :: byte]"] by simp
  then have h1: "is_first_end (pattern_bits (Some ''10'')) (bits_of_bytes [0xBF, 0xD0])
                   (0 + length (pattern_bits (Some ''10'')))"
    unfolding p by (simp add: numeral_2_eq_2)
  have "first_end [0, 1 :: byte] [] (bits_of_bytes [0xFF] @ [0, 1]) = Some 10"
    unfolding b2 by (simp add: suffix_to_prefix)
  then have "is_first_end [0, 1 :: byte] (bits_of_bytes [0xFF] @ [0, 1]) 10"
    using first_end_is_first_end [of "[0, 1 :: byte]"] by simp
  then have h2: "is_first_end (pattern_bits (Some ''01'')) (bits_of_bytes [0xFF] @ pattern_bits (Some ''01''))
     (8 * length [0xFF :: byte] + length (pattern_bits (Some ''01'')))"
    unfolding p by simp
  from wrap_unwrap_round_trip [OF g w h1 h2]
  have "unwrap_file_bits (Some [0xBF, 0xD0]) True (Some ''10'') (Some ''01'')
     = Some \<lparr>u_ret = 0, u_out = Some [0xFF], g_last_start_flag_pos = 0, g_last_end_flag_pos = 10\<rparr>"
    unfolding p by simp
  then show ?thesis using g w h1 h2 by (intro conjI)
qed

text \<open>
  Claim C4, as stated, fails on the code. With seed 42 the five left dummy bits are
  \<open>11010\<close>, so the start pattern \<open>10101010\<close> first occurs one bit into the stream, and the
  end pattern \<open>01010101\<close> occurs inside what follows; unwrap therefore returns one payload
  bit, and the recorded positions count the bits before each match.
\<close>

theorem scenario_E_counterexample:
  "u_out (the (unwrap_file_bits
          (snd (wrap_file_bits (Some [0xAA, 0xBB, 0xCC]) True (Some ''10101010'') (Some ''01010101'') 5 7 42 []))
          True (Some ''10101010'') (Some ''01010101''))) \<noteq> Some [0xAA, 0xBB, 0xCC] \<and>
   g_last_start_flag_pos (the (unwrap_file_bits
          (snd (wrap_file_bits (Some [0xAA, 0xBB, 0xCC]) True (Some ''10101010'') (Some ''01010101'') 5 7 42 []))
          True (Some ''10101010'') (Some ''01010101''))) \<noteq> 6 \<and>
   g_last_end_flag_pos (the (unwrap_file_bits
          (snd (wrap_file_bits (Some [0xAA, 0xBB, 0xCC]) True (Some ''10101010'') (Some ''01010101'') 5 7 42 []))
          True (Some ''10101010'') (Some ''01010101''))) \<noteq> 38"
  by (simp add: scenario_E_wrap scenario_E_unwrap)

text \<open>
  Claim C4, amended. For input \<open>AA BB CC\<close>, start \<open>10101010\<close>, end \<open>01010101\<close>, 5 left and
  7 right dummy bits and seed 42: the wrapped file is the 7 bytes \<open>D5 55 55 DE 62 AD 40\<close>,
  and unwrapping it returns 0, writes the single byte \<open>80\<close> and leaves
  \<^verbatim>\<open>get_last_start_flag_pos() = 1\<close> and \<^verbatim>\<open>get_last_end_flag_pos() = 10\<close>, each the number of
  bits read before the matched pattern began.
\<close>

theorem scenario_E_actual:
  "wrap_file_bits (Some [0xAA, 0xBB, 0xCC]) True (Some ''10101010'') (Some ''01010101'') 5 7 42 []
     = (0, Some [0xD5, 0x55, 0x55, 0xDE, 0x62, 0xAD, 0x40]) \<and>
   length [0xD5, 0x55, 0x55, 0xDE, 0x62, 0xAD, 0x40 :: byte] = 7 \<and>
   unwrap_file_bits (Some [0xD5, 0x55, 0x55, 0xDE, 0x62, 0xAD, 0x40]) True
       (Some ''10101010'') (Some ''01010101'')
     = Some \<lparr>u_ret = 0, u_out = Some [0x80], g_last_start_flag_pos = 1, g_last_end_flag_pos = 10\<rparr>"
  by (simp add: scenario_E_wrap scenario_E_unwrap)

section \<open>CRC engines (rs_container.c)\<close>

text \<open>
  \<^verbatim>\<open>crc32_table\<close> and \<^verbatim>\<open>crc16_table\<close> are file-scope arrays filled on first use.
  The generating loop writes entry \<open>i\<close> after eight shift steps.
\<close>

record crc_tables =
  crc32_table :: "32 word list"
  crc32_init_done :: bool
  crc16_table :: "16 word list"
  crc16_init_done :: bool

definition crc_tables_static :: crc_tables where
  "crc_tables_static = \<lparr>crc32_table = replicate 256 0, crc32_init_done = False,
                          crc16_table = replicate 256 0, crc16_init_done = False\<rparr>"

definition crc32_entry_step :: "32 word \<Rightarrow> 32 word" where
  "crc32_entry_step c = (if c AND 1 \<noteq> 0 then 0xEDB88320 XOR drop_bit 1 c else drop_bit 1 c)"

definition crc32_init :: "crc_tables \<Rightarrow> crc_tables" where
  "crc32_init t =
     (if crc32_init_done t then t
      else t\<lparr>crc32_table :=
                 fold (\<lambda>i tab. tab[i := (crc32_entry_step ^^ 8) (of_nat i)]) [0..<256] (crc32_table t),
             crc32_init_done := True\<rparr>)"

primrec crc32_update :: "32 word list \<Rightarrow> byte list \<Rightarrow> 32 word \<Rightarrow> 32 word" where
  "crc32_update tab [] c = c"
| "crc32_update tab (b # bs) c =
     crc32_update tab bs (tab ! unat ((c XOR ucast b) AND 0xFF) XOR drop_bit 8 c)"

definition crc32_calc :: "crc_tables \<Rightarrow> byte list \<Rightarrow> 32 word \<times> crc_tables" where
  "crc32_calc t buf =
     (let t' = crc32_init t
      in (crc32_update (crc32_table t') buf 0xFFFFFFFF XOR 0xFFFFFFFF, t'))"

definition crc16_entry_step :: "16 word \<Rightarrow> 16 word" where
  "crc16_entry_step c = (if c AND 0x8000 \<noteq> 0 then push_bit 1 c XOR 0x1021 else push_bit 1 c)"

definition crc16_init :: "crc_tables \<Rightarrow> crc_tables" where
  "crc16_init t =
     (if crc16_init_done t then t
      else t\<lparr>crc16_table :=
                 fold (\<lambda>i tab. tab[i := (crc16_entry_step ^^ 8) (push_bit 8 (of_nat i))]) [0..<256]
                   (crc16_table t),
             crc16_init_done := True\<rparr>)"

primrec crc16_update :: "16 word list \<Rightarrow> byte list \<Rightarrow> 16 word \<Rightarrow> 16 word" where
  "crc16_update tab [] crc = crc"
| "crc16_update tab (b # bs) crc =
     crc16_update tab bs (push_bit 8 crc XOR tab ! unat ((drop_bit 8 crc XOR ucast b) AND 0xFF))"

definition crc16_ccitt :: "crc_tables \<Rightarrow> byte list \<Rightarrow> 16 word \<times> crc_tables" where
  "crc16_ccitt t buf = (let t' = crc16_init t in (crc16_update (crc16_table t') buf 0xFFFF, t'))"

text \<open>
  The reference algorithms, after the claim's words: the bit-serial CRC-32 of IEEE 802.3
  (reflected polynomial \<open>0xEDB88320\<close>, initial value and final XOR \<open>0xFFFFFFFF\<close>) and the
  bit-serial CRC-16-CCITT (polynomial \<open>0x1021\<close>, initial value \<open>0xFFFF\<close>, most significant
  bit first, no final XOR). Each consumes a byte by XORing it into the register and clocking
  the register eight times.
\<close>

definition crc32_ref_bit :: "32 word \<Rightarrow> 32 word" where
  "crc32_ref_bit c = (if bit c 0 then drop_bit 1 c XOR 0xEDB88320 else drop_bit 1 c)"

primrec crc32_ref_loop :: "byte list \<Rightarrow> 32 word \<Rightarrow> 32 word" where
  "crc32_ref_loop [] c = c"
| "crc32_ref_loop (b # bs) c = crc32_ref_loop bs ((crc32_ref_bit ^^ 8) (c XOR ucast b))"

definition crc32_ref :: "byte list \<Rightarrow> 32 word" where
  "crc32_ref buf = crc32_ref_loop buf 0xFFFFFFFF XOR 0xFFFFFFFF"

definition crc16_ref_bit :: "16 word \<Rightarrow> 16 word" where
  "crc16_ref_bit c = (if bit c 15 then push_bit 1 c XOR 0x1021 else push_bit 1 c)"

primrec crc16_ref_loop :: "byte list \<Rightarrow> 16 word \<Rightarrow> 16 word" where
  "crc16_ref_loop [] c = c"
| "crc16_ref_loop (b # bs) c = crc16_ref_loop bs ((crc16_ref_bit ^^ 8) (c XOR push_bit 8 (ucast b)))"

definition crc16_ref :: "byte list \<Rightarrow> 16 word" where
  "crc16_ref buf = crc16_ref_loop buf 0xFFFF"

text \<open>
  The tables are static arrays guarded by an init flag: a state is sound when both arrays
  have their 256 entries and an array whose flag is set holds the generated table.
\<close>

definition crc_tables_ok :: "crc_tables \<Rightarrow> bool" where
  "crc_tables_ok t =
     (length (crc32_table t) = 256 \<and> length (crc16_table t) = 256 \<and>
      (crc32_init_done t \<longrightarrow>
         (\<forall>i<256. crc32_table t ! i = (crc32_entry_step ^^ 8) (of_nat i))) \<and>
      (crc16_init_done t \<longrightarrow>
         (\<forall>i<256. crc16_table t ! i = (crc16_entry_step ^^ 8) (push_bit 8 (of_nat i)))))"

definition check_string :: "byte list" where
  "check_string = [0x31, 0x32, 0x33, 0x34, 0x35, 0x36, 0x37, 0x38, 0x39]"



lemma funpow8: "(f ^^ 8) x = f (f (f (f (f (f (f (f x)))))))"
  by (simp add: numeral_eq_Suc)





lemma crc32_ref_check: "crc32_ref check_string = 0xCBF43926" 
  by (simp add: crc32_ref_def check_string_def crc32_ref_bit_def funpow8)
lemma crc16_ref_check: "crc16_ref check_string = 0x29B1" 
  by (simp add: crc16_ref_def check_string_def crc16_ref_bit_def funpow8)

lemma fold_update_length [simp]:
  "length (fold (\<lambda>i tab. tab[i := f i]) xs t) = length t"
  by (induction xs arbitrary: t) simp_all

lemma fold_update_nth:
  "n \<le> length t \<Longrightarrow> i < n \<Longrightarrow> fold (\<lambda>i tab. tab[i := f i]) [0..<n] t ! i = f i"
proof (induction n)
  case 0
  then show ?case by simp
next
  case (Suc n)
  then show ?case by (cases "i = n") (simp_all add: nth_list_update less_Suc_eq)
qed

lemma crc_tables_ok_static: "crc_tables_ok crc_tables_static"
  by (simp add: crc_tables_ok_def crc_tables_static_def)

lemma crc32_init_ok: "crc_tables_ok t \<Longrightarrow> crc_tables_ok (crc32_init t)"
  by (simp add: crc_tables_ok_def crc32_init_def fold_update_nth)

lemma crc16_init_ok: "crc_tables_ok t \<Longrightarrow> crc_tables_ok (crc16_init t)"
  by (simp add: crc_tables_ok_def crc16_init_def fold_update_nth)

lemma crc32_init_table:
  "crc_tables_ok t \<Longrightarrow> i < 256 \<Longrightarrow> crc32_table (crc32_init t) ! i = (crc32_entry_step ^^ 8) (of_nat i)"
  by (simp add: crc_tables_ok_def crc32_init_def fold_update_nth)

lemma crc16_init_table:
  "crc_tables_ok t \<Longrightarrow> i < 256 \<Longrightarrow>
   crc16_table (crc16_init t) ! i = (crc16_entry_step ^^ 8) (push_bit 8 (of_nat i))"
  by (simp add: crc_tables_ok_def crc16_init_def fold_update_nth)

lemma and_one_neq_0: "(c AND 1 \<noteq> 0) = bit (c::'a::len word) 0"
  by (simp add: and_one_eq bit_0 odd_iff_mod_2_eq_one)

lemma crc32_entry_step_eq: "crc32_entry_step c = crc32_ref_bit c"
  by (simp add: crc32_entry_step_def crc32_ref_bit_def and_one_neq_0 xor.commute)

lemma crc32_ref_bit_xor: "crc32_ref_bit (a XOR b) = crc32_ref_bit a XOR crc32_ref_bit b"
  by (simp add: crc32_ref_bit_def bit_xor_iff xor.assoc xor.left_commute xor.commute)

lemma crc32_ref_bits_xor: "(crc32_ref_bit ^^ n) (a XOR b) = (crc32_ref_bit ^^ n) a XOR (crc32_ref_bit ^^ n) b"
  by (induction n) (simp_all add: crc32_ref_bit_xor)

lemma crc32_ref_bits_shift:
  "a AND mask n = 0 \<Longrightarrow> (crc32_ref_bit ^^ n) a = drop_bit n a"
proof (induction n)
  case 0
  then show ?case by simp
next
  case (Suc n)
  have nb: "\<not> bit a k" if "k < Suc n" for k
  proof
    assume "bit a k"
    then have "bit (a AND mask (Suc n)) k"
      using that bit_imp_possible_bit [of a k] by (simp add: bit_and_iff bit_mask_iff)
    then show False using Suc.prems by simp
  qed
  have "a AND mask n = 0"
    by (rule bit_eqI) (use nb in \<open>auto simp: bit_and_iff bit_mask_iff\<close>)
  then have ih: "(crc32_ref_bit ^^ n) a = drop_bit n a" by (rule Suc.IH)
  have "\<not> bit (drop_bit n a) 0" using nb [of n] by (simp add: bit_drop_bit_eq)
  then have "crc32_ref_bit (drop_bit n a) = drop_bit (Suc n) a" by (simp add: crc32_ref_bit_def)
  then show ?case by (simp add: ih)
qed


lemma low_high_split: "(x::'a::len word) = (x AND mask n) XOR push_bit n (drop_bit n x)"
  by (rule bit_eqI) (auto simp: bit_xor_iff bit_and_iff bit_mask_iff bit_push_bit_iff bit_drop_bit_eq)

lemma crc32_table_step:
  fixes c :: "32 word" and b :: byte
  shows "(crc32_ref_bit ^^ 8) (c XOR ucast b)
       = (crc32_ref_bit ^^ 8) (of_nat (unat ((c XOR ucast b) AND 0xFF))) XOR drop_bit 8 c"
proof -
  let ?x = "c XOR ucast b"
  have m: "(0xFF :: 32 word) = mask 8" by (simp add: mask_eq_exp_minus_1)
  have hi: "push_bit 8 (drop_bit 8 ?x) AND mask 8 = 0"
    by (rule bit_eqI) (auto simp: bit_and_iff bit_mask_iff bit_push_bit_iff bit_xor_iff)
  have d: "drop_bit 8 (ucast b :: 32 word) = 0"
    by (rule bit_eqI) (auto simp: bit_drop_bit_eq bit_ucast_iff dest: bit_imp_le_length)
  have "(crc32_ref_bit ^^ 8) ?x = (crc32_ref_bit ^^ 8) ((?x AND mask 8) XOR push_bit 8 (drop_bit 8 ?x))"
    using low_high_split [of ?x 8] by simp
  also have "\<dots> = (crc32_ref_bit ^^ 8) (?x AND mask 8) XOR drop_bit 8 (push_bit 8 (drop_bit 8 ?x))"
    by (simp only: crc32_ref_bits_xor crc32_ref_bits_shift [OF hi])
  also have "drop_bit 8 (push_bit 8 (drop_bit 8 ?x)) = drop_bit 8 c"
  proof -
    have "drop_bit 8 (push_bit 8 (drop_bit 8 c)) = drop_bit 8 c"
      by (rule bit_eqI) (auto simp: bit_drop_bit_eq bit_push_bit_iff dest: bit_imp_le_length)
    then show ?thesis by (simp add: d)
  qed
  finally show ?thesis by (simp add: m)
qed

lemma unat_and_ff_less32: "unat ((x::32 word) AND 0xFF) < 256"
proof -
  have "x AND 0xFF = take_bit 8 x" by (simp add: take_bit_eq_mask mask_eq_exp_minus_1)
  then have "unat (x AND 0xFF) = take_bit 8 (unat x)" by (simp add: unsigned_take_bit_eq)
  then show ?thesis using take_bit_nat_less_exp [of 8 "unat x"] by simp
qed

lemma crc32_update_ref:
  assumes "\<forall>i<256. tab ! i = (crc32_entry_step ^^ 8) (of_nat i)"
  shows "crc32_update tab buf c = crc32_ref_loop buf c"
proof (induction buf arbitrary: c)
  case Nil
  then show ?case by simp
next
  case (Cons b buf)
  have st: "crc32_entry_step = crc32_ref_bit" by (rule ext) (rule crc32_entry_step_eq)
  have "tab ! unat ((c XOR ucast b) AND 0xFF) = (crc32_ref_bit ^^ 8) (of_nat (unat ((c XOR ucast b) AND 0xFF)))"
    using assms unat_and_ff_less32 [of "c XOR ucast b"] by (simp only: st)
  then show ?case using Cons.IH crc32_table_step [of c b] by simp
qed

lemma crc16_entry_step_eq: "crc16_entry_step c = crc16_ref_bit c"
proof -
  have "(0x8000 :: 16 word) = 2 ^ 15" by simp
  then have "(c AND 0x8000 \<noteq> 0) = bit c 15"
    by (simp only: and_exp_eq_0_iff_not_bit) simp
  then show ?thesis by (simp add: crc16_entry_step_def crc16_ref_bit_def)
qed

lemma crc16_ref_bit_xor: "crc16_ref_bit (a XOR b) = crc16_ref_bit a XOR crc16_ref_bit b"
  by (simp add: crc16_ref_bit_def bit_xor_iff xor.assoc xor.left_commute xor.commute)

lemma crc16_ref_bits_xor: "(crc16_ref_bit ^^ n) (a XOR b) = (crc16_ref_bit ^^ n) a XOR (crc16_ref_bit ^^ n) b"
  by (induction n) (simp_all add: crc16_ref_bit_xor)

lemma crc16_ref_bits_shift:
  "n \<le> 16 \<Longrightarrow> drop_bit (16 - n) a = 0 \<Longrightarrow> (crc16_ref_bit ^^ n) a = push_bit n a"
proof (induction n)
  case 0
  then show ?case by simp
next
  case (Suc n)
  have nb: "\<not> bit a k" if "15 - n \<le> k" for k
  proof
    assume "bit a k"
    then have "bit (drop_bit (16 - Suc n) a) (k - (15 - n))" using that by (simp add: bit_drop_bit_eq)
    then show False using Suc.prems by simp
  qed
  have "drop_bit (16 - n) a = 0"
    by (rule bit_eqI) (use nb in \<open>auto simp: bit_drop_bit_eq\<close>)
  then have ih: "(crc16_ref_bit ^^ n) a = push_bit n a" using Suc.prems Suc.IH by simp
  have "\<not> bit (push_bit n a) 15" using nb [of "15 - n"] by (simp add: bit_push_bit_iff)
  then have "crc16_ref_bit (push_bit n a) = push_bit (Suc n) a" by (simp add: crc16_ref_bit_def)
  then show ?case by (simp add: ih)
qed

lemma unat_and_ff_less16: "unat ((x::16 word) AND 0xFF) < 256"
proof -
  have "x AND 0xFF = take_bit 8 x" by (simp add: take_bit_eq_mask mask_eq_exp_minus_1)
  then have "unat (x AND 0xFF) = take_bit 8 (unat x)" by (simp add: unsigned_take_bit_eq)
  then show ?thesis using take_bit_nat_less_exp [of 8 "unat x"] by simp
qed

lemma crc16_table_step:
  fixes c :: "16 word" and b :: byte
  shows "(crc16_ref_bit ^^ 8) (c XOR push_bit 8 (ucast b))
       = push_bit 8 c XOR
         (crc16_ref_bit ^^ 8) (push_bit 8 (of_nat (unat ((drop_bit 8 c XOR ucast b) AND 0xFF))))"
proof -
  let ?x = "c XOR push_bit 8 (ucast b)"
  have m: "(0xFF :: 16 word) = mask 8" by (simp add: mask_eq_exp_minus_1)
  have lo: "drop_bit (16 - 8) (?x AND mask 8) = 0"
    by (rule bit_eqI) (auto simp: bit_drop_bit_eq bit_and_iff bit_mask_iff)
  have l: "push_bit 8 (?x AND mask 8) = push_bit 8 c"
    by (rule bit_eqI) (auto simp: bit_push_bit_iff bit_and_iff bit_mask_iff bit_xor_iff dest: bit_imp_le_length)
  have h: "push_bit 8 (drop_bit 8 ?x) = push_bit 8 ((drop_bit 8 c XOR ucast b) AND mask 8)"
    by (rule bit_eqI) (auto simp: bit_push_bit_iff bit_drop_bit_eq bit_and_iff bit_mask_iff bit_xor_iff bit_ucast_iff dest: bit_imp_le_length)
  have "(crc16_ref_bit ^^ 8) ?x = (crc16_ref_bit ^^ 8) ((?x AND mask 8) XOR push_bit 8 (drop_bit 8 ?x))"
    using low_high_split [of ?x 8] by simp
  also have "\<dots> = push_bit 8 (?x AND mask 8) XOR (crc16_ref_bit ^^ 8) (push_bit 8 (drop_bit 8 ?x))"
    using crc16_ref_bits_shift [OF _ lo] by (simp only: crc16_ref_bits_xor)
  finally show ?thesis by (simp only: l h m of_nat_unat ucast_id)
qed

lemma crc16_update_ref:
  assumes "\<forall>i<256. tab ! i = (crc16_entry_step ^^ 8) (push_bit 8 (of_nat i))"
  shows "crc16_update tab buf c = crc16_ref_loop buf c"
proof (induction buf arbitrary: c)
  case Nil
  then show ?case by simp
next
  case (Cons b buf)
  have st: "crc16_entry_step = crc16_ref_bit" by (rule ext) (rule crc16_entry_step_eq)
  have "tab ! unat ((drop_bit 8 c XOR ucast b) AND 0xFF)
      = (crc16_ref_bit ^^ 8) (push_bit 8 (of_nat (unat ((drop_bit 8 c XOR ucast b) AND 0xFF))))"
    using assms unat_and_ff_less16 [of "drop_bit 8 c XOR ucast b"] by (simp only: st)
  then show ?case using Cons.IH crc16_table_step [of c b] by simp
qed

text \<open>
  Claim C6. For every byte sequence and every sound table state (the static one included),
  the table-driven \<^verbatim>\<open>crc32_calc\<close> returns the reference IEEE 802.3 CRC-32 and
  \<^verbatim>\<open>crc16_ccitt\<close> the reference CRC-16-CCITT, and each leaves the table state sound: the
  value depends on the bytes alone, whatever calls came before.
\<close>

theorem crc_table_driven_equals_reference:
  assumes "crc_tables_ok t"
  shows "fst (crc32_calc t buf) = crc32_ref buf \<and> crc_tables_ok (snd (crc32_calc t buf)) \<and>
         fst (crc16_ccitt t buf) = crc16_ref buf \<and> crc_tables_ok (snd (crc16_ccitt t buf))"
proof -
  have a: "\<forall>i<256. crc32_table (crc32_init t) ! i = (crc32_entry_step ^^ 8) (of_nat i)"
    using crc32_init_table [OF assms] by simp
  have b: "\<forall>i<256. crc16_table (crc16_init t) ! i = (crc16_entry_step ^^ 8) (push_bit 8 (of_nat i))"
    using crc16_init_table [OF assms] by simp
  show ?thesis
    using crc32_update_ref [OF a] crc16_update_ref [OF b] crc32_init_ok [OF assms] crc16_init_ok [OF assms]
    by (simp add: crc32_calc_def crc16_ccitt_def crc32_ref_def crc16_ref_def Let_def)
qed

theorem crc_table_driven_equals_reference_witness:
  "crc_tables_ok crc_tables_static \<and>
   fst (crc32_calc crc_tables_static check_string) = 0xCBF43926 \<and>
   fst (crc16_ccitt crc_tables_static check_string) = 0x29B1"
  using crc_table_driven_equals_reference [OF crc_tables_ok_static, of check_string]
  by (simp add: crc_tables_ok_static crc32_ref_check crc16_ref_check)

section \<open>RS container: layout (rs\_container.c)\<close>

definition K_SHARDS :: nat where "K_SHARDS = 192"
definition SHARD_LEN :: nat where "SHARD_LEN = 64"
definition FRAME_BYTES :: nat where "FRAME_BYTES = K_SHARDS * SHARD_LEN"
definition MAX_R :: nat where "MAX_R = 63"
definition GLOBAL_MAGIC :: nat where "GLOBAL_MAGIC = 0x54435352"
definition FRAME_MAGIC_V4 :: nat where "FRAME_MAGIC_V4 = 0x34534652"
definition SLICE_MAGIC_V4 :: nat where "SLICE_MAGIC_V4 = 0x344C5352"
definition IL_DEPTH_DEFAULT :: int where "IL_DEPTH_DEFAULT = 16"
definition SLICE_BYTES_DEFAULT :: int where "SLICE_BYTES_DEFAULT = 512"

definition compute_pad :: "int \<Rightarrow> int" where
  "compute_pad r = 255 - (int K_SHARDS + r)"

definition payload_len_bytes :: "nat \<Rightarrow> nat" where
  "payload_len_bytes r = FRAME_BYTES + r * SHARD_LEN + K_SHARDS * 2 + r * 2"

text \<open>
  The headers are packed structs written and read as raw memory. Unsigned fields are
  natural numbers here; \<open>le_bytes n x\<close> is the little-endian image of the \<open>n\<close>-byte field
  holding \<open>x\<close> (reduced modulo \<open>256^n\<close>, as the store into the field does), \<open>le_value\<close>
  reads it back.
\<close>

primrec le_bytes :: "nat \<Rightarrow> nat \<Rightarrow> byte list" where
  "le_bytes 0 x = []"
| "le_bytes (Suc n) x = of_nat (x mod 256) # le_bytes n (x div 256)"

primrec le_value :: "byte list \<Rightarrow> nat" where
  "le_value [] = 0"
| "le_value (b # bs) = unat b + 256 * le_value bs"

definition field :: "nat \<Rightarrow> nat \<Rightarrow> byte list \<Rightarrow> nat" where
  "field pos n bs = le_value (take n (drop pos bs))"

record rsct_header_v4 =
  gh_magic :: nat
  gh_version :: nat
  gh_k :: nat
  gh_r :: nat
  gh_shard_len :: nat
  gh_pad :: nat
  gh_original_size :: nat
  gh_frame_count :: nat
  gh_il_depth :: nat
  gh_slice_bytes :: nat
  gh_reserved :: nat

record frame_hdr_v4 =
  fh_magic :: nat
  fh_index :: nat
  fh_data_len :: nat
  fh_parity_len :: nat
  fh_crc32_data :: nat
  fh_crc32_par :: nat

record slice_hdr_v4 =
  sh_magic :: nat
  sh_frame_index :: nat
  sh_offset :: nat
  sh_size :: nat
  sh_crc32_slice :: nat

definition put_rsct_header :: "rsct_header_v4 \<Rightarrow> byte list" where
  "put_rsct_header gh =
     le_bytes 4 (gh_magic gh) @ le_bytes 2 (gh_version gh) @ le_bytes 2 (gh_k gh) @
     le_bytes 2 (gh_r gh) @ le_bytes 2 (gh_shard_len gh) @ le_bytes 2 (gh_pad gh) @
     le_bytes 8 (gh_original_size gh) @ le_bytes 8 (gh_frame_count gh) @
     le_bytes 2 (gh_il_depth gh) @ le_bytes 2 (gh_slice_bytes gh) @ le_bytes 2 (gh_reserved gh)"

definition get_rsct_header :: "byte list \<Rightarrow> rsct_header_v4" where
  "get_rsct_header bs =
     \<lparr>gh_magic = field 0 4 bs, gh_version = field 4 2 bs, gh_k = field 6 2 bs,
      gh_r = field 8 2 bs, gh_shard_len = field 10 2 bs, gh_pad = field 12 2 bs,
      gh_original_size = field 14 8 bs, gh_frame_count = field 22 8 bs,
      gh_il_depth = field 30 2 bs, gh_slice_bytes = field 32 2 bs, gh_reserved = field 34 2 bs\<rparr>"

definition put_frame_hdr :: "frame_hdr_v4 \<Rightarrow> byte list" where
  "put_frame_hdr fh =
     le_bytes 4 (fh_magic fh) @ le_bytes 8 (fh_index fh) @ le_bytes 2 (fh_data_len fh) @
     le_bytes 2 (fh_parity_len fh) @ le_bytes 4 (fh_crc32_data fh) @ le_bytes 4 (fh_crc32_par fh)"

text \<open>The reader has consumed the magic already and reads the other 20 bytes.\<close>

definition get_frame_hdr :: "nat \<Rightarrow> byte list \<Rightarrow> frame_hdr_v4" where
  "get_frame_hdr magic bs =
     \<lparr>fh_magic = magic, fh_index = field 0 8 bs, fh_data_len = field 8 2 bs,
      fh_parity_len = field 10 2 bs, fh_crc32_data = field 12 4 bs, fh_crc32_par = field 16 4 bs\<rparr>"

definition put_slice_hdr :: "slice_hdr_v4 \<Rightarrow> byte list" where
  "put_slice_hdr sh =
     le_bytes 4 (sh_magic sh) @ le_bytes 8 (sh_frame_index sh) @ le_bytes 4 (sh_offset sh) @
     le_bytes 2 (sh_size sh) @ le_bytes 4 (sh_crc32_slice sh)"

definition get_slice_hdr :: "nat \<Rightarrow> byte list \<Rightarrow> slice_hdr_v4" where
  "get_slice_hdr magic bs =
     \<lparr>sh_magic = magic, sh_frame_index = field 0 8 bs, sh_offset = field 8 4 bs,
      sh_size = field 12 2 bs, sh_crc32_slice = field 14 4 bs\<rparr>"

text \<open>
  \<^verbatim>\<open>crc32_calc\<close> and \<^verbatim>\<open>crc16_ccitt\<close> return the same value from every sound table state;
  the container code below uses that value.
\<close>

definition crc32_of :: "byte list \<Rightarrow> nat" where
  "crc32_of buf = unat (fst (crc32_calc crc_tables_static buf))"

definition crc16_of :: "byte list \<Rightarrow> nat" where
  "crc16_of buf = unat (fst (crc16_ccitt crc_tables_static buf))"

text \<open>
  The Reed-Solomon codec is libfec, of which the sources hold only the declarations in
  \<^verbatim>\<open>fec.h\<close>. It is a parameter: \<open>init_rs_char nroots pad\<close> stands for the call
  \<^verbatim>\<open>init_rs_char(8, 0x11d, 1, 1, nroots, pad)\<close> and yields the codec or \<open>None\<close> for a null
  pointer. \<open>encode_rs_char\<close> maps the 192 data symbols to the parity symbols it stores
  behind them; \<open>decode_rs_char\<close> takes the received word and the erasure positions and
  returns the return value, the word it leaves in the buffer and the contents it leaves
  in the erasure array.
\<close>

record rs_codec =
  encode_rs_char :: "byte list \<Rightarrow> byte list"
  decode_rs_char :: "byte list \<Rightarrow> int list \<Rightarrow> int \<times> byte list \<times> int list"

type_synonym rs_init = "int \<Rightarrow> int \<Rightarrow> rs_codec option"

definition shard :: "byte list \<Rightarrow> nat \<Rightarrow> byte list" where
  "shard buf j = take SHARD_LEN (drop (j * SHARD_LEN) buf)"

definition encode_frame_parity :: "rs_codec \<Rightarrow> byte list \<Rightarrow> nat \<Rightarrow> nat \<Rightarrow> byte list" where
  "encode_frame_parity rs frame valid_len r =
     (let cw = (\<lambda>i. map (\<lambda>j. if j * SHARD_LEN + i < valid_len then frame ! (j * SHARD_LEN + i) else 0)
                       [0..<K_SHARDS]);
          par = (\<lambda>i. encode_rs_char rs (cw i))
      in concat (map (\<lambda>j. map (\<lambda>i. par i ! j) [0..<SHARD_LEN]) [0..<r]))"

section \<open>RS container: pack\<close>

record enc_frame =
  buf_data :: "byte list"
  buf_par :: "byte list"
  tab_crcD :: "byte list"
  tab_crcP :: "byte list"
  fhdr :: frame_hdr_v4

text \<open>
  One pass of the loop over \<^verbatim>\<open>gi\<close>: read the frame, zero-fill it, compute the parity
  block and the two CRC-16 tables (kept as the bytes the \<^verbatim>\<open>uint16_t\<close> arrays occupy).
\<close>

definition encode_frame ::
  "rs_codec \<Rightarrow> nat \<Rightarrow> nat \<Rightarrow> nat \<Rightarrow> nat \<Rightarrow> byte list \<Rightarrow> enc_frame \<times> byte list" where
  "encode_frame rs r orig frames fidx fi =
     (let to_read = (if fidx = frames - 1 \<and> orig - fidx * FRAME_BYTES < FRAME_BYTES
                     then orig - fidx * FRAME_BYTES else FRAME_BYTES);
          got = min to_read (length fi);
          data = take got fi @ replicate (FRAME_BYTES - got) 0;
          par = encode_frame_parity rs data to_read r
      in (\<lparr>buf_data = data, buf_par = par,
           tab_crcD = concat (map (\<lambda>j. le_bytes 2 (crc16_of (shard data j))) [0..<K_SHARDS]),
           tab_crcP = concat (map (\<lambda>j. le_bytes 2 (crc16_of (shard par j))) [0..<r]),
           fhdr = \<lparr>fh_magic = FRAME_MAGIC_V4, fh_index = fidx, fh_data_len = to_read,
                    fh_parity_len = r * SHARD_LEN, fh_crc32_data = crc32_of data,
                    fh_crc32_par = crc32_of par\<rparr>\<rparr>,
          drop got fi))"

primrec encode_group ::
  "rs_codec \<Rightarrow> nat \<Rightarrow> nat \<Rightarrow> nat \<Rightarrow> nat \<Rightarrow> nat \<Rightarrow> byte list \<Rightarrow> enc_frame list \<times> byte list" where
  "encode_group rs r orig frames fidx 0 fi = ([], fi)"
| "encode_group rs r orig frames fidx (Suc n) fi =
     (case encode_frame rs r orig frames fidx fi of
        (e, fi') \<Rightarrow> (case encode_group rs r orig frames (Suc fidx) n fi' of
                      (es, fi'') \<Rightarrow> (e # es, fi'')))"

text \<open>
  The slice buffer \<^verbatim>\<open>ptmp\<close> is filled by up to four copies, one from each region of the
  frame payload; \<^verbatim>\<open>copied\<close> is the length of what has been gathered so far.
\<close>

definition slice_payload :: "nat \<Rightarrow> enc_frame \<Rightarrow> nat \<Rightarrow> nat \<Rightarrow> byte list" where
  "slice_payload r e off chunk =
     (let par_bytes = r * SHARD_LEN; crcD_bytes = K_SHARDS * 2; crcP_bytes = r * 2;
          p1 = (if off < FRAME_BYTES
                then take (min chunk (FRAME_BYTES - off)) (drop off (buf_data e)) else []);
          p2 = (if off + length p1 < FRAME_BYTES + par_bytes \<and> length p1 < chunk \<and>
                   FRAME_BYTES \<le> off + length p1
                then p1 @ take (min (chunk - length p1) (par_bytes - (off + length p1 - FRAME_BYTES)))
                             (drop (off + length p1 - FRAME_BYTES) (buf_par e))
                else p1);
          p3 = (if off + length p2 < FRAME_BYTES + par_bytes + crcD_bytes \<and> length p2 < chunk \<and>
                   FRAME_BYTES + par_bytes \<le> off + length p2
                then p2 @ take (min (chunk - length p2)
                                    (crcD_bytes - (off + length p2 - (FRAME_BYTES + par_bytes))))
                             (drop (off + length p2 - (FRAME_BYTES + par_bytes)) (tab_crcD e))
                else p2)
      in (if length p3 < chunk \<and> FRAME_BYTES + par_bytes + crcD_bytes \<le> off + length p3
          then p3 @ take (min (chunk - length p3)
                              (crcP_bytes - (off + length p3 - (FRAME_BYTES + par_bytes + crcD_bytes))))
                       (drop (off + length p3 - (FRAME_BYTES + par_bytes + crcD_bytes)) (tab_crcP e))
          else p3))"

definition put_slice :: "nat \<Rightarrow> nat \<Rightarrow> nat \<Rightarrow> enc_frame \<Rightarrow> byte list" where
  "put_slice r off chunk e =
     (let ptmp = slice_payload r e off chunk
      in put_slice_hdr \<lparr>sh_magic = SLICE_MAGIC_V4, sh_frame_index = fh_index (fhdr e),
                        sh_offset = off, sh_size = chunk, sh_crc32_slice = crc32_of ptmp\<rparr> @ ptmp)"

function slice_loop :: "nat \<Rightarrow> nat \<Rightarrow> enc_frame list \<Rightarrow> nat \<Rightarrow> byte list" where
  "slice_loop r S encs off =
     (if off < payload_len_bytes r \<and> 0 < S
      then (let chunk = (if off + S \<le> payload_len_bytes r then S else payload_len_bytes r - off)
            in concat (map (put_slice r off chunk) encs) @ slice_loop r S encs (off + S))
      else [])"
  by pat_completeness auto
termination
  by (relation "measure (\<lambda>(r, S, encs, off). payload_len_bytes r - off)") auto

declare slice_loop.simps [simp del]

text \<open>
  The loop over the interleave groups. With \<^verbatim>\<open>D = 0\<close> and frames left it never advances;
  \<open>None\<close> is a run that does not return.
\<close>

partial_function (option) pack_groups ::
  "rs_codec \<Rightarrow> nat \<Rightarrow> nat \<Rightarrow> nat \<Rightarrow> nat \<Rightarrow> nat \<Rightarrow> bool \<Rightarrow> nat \<Rightarrow> byte list \<Rightarrow> byte list
     \<Rightarrow> byte list option" where
  "pack_groups rs r D S orig frames g_cancel fbase fi fo =
     (if fbase < frames then
        (if g_cancel then Some fo
         else (let in_grp = (if frames - fbase \<ge> D then D else frames - fbase)
               in case encode_group rs r orig frames fbase in_grp fi of
                    (encs, fi') \<Rightarrow>
                      pack_groups rs r D S orig frames g_cancel (fbase + in_grp) fi'
                        (fo @ concat (map (\<lambda>e. put_frame_hdr (fhdr e)) encs) @ slice_loop r S encs 0)))
      else Some fo)"

declare pack_groups.simps [code]

text \<open>
  \<open>pack_impl\<close>, with what follows the opening of both files as \<open>pack_file\<close>. The
  arguments stand for what the call meets: the codec library, the
  cancel flag (read as a constant of the run), the input file's bytes (\<open>None\<close> when it
  cannot be opened) and whether the container file can be opened. The result is the return
  code and the bytes the container file holds (\<open>None\<close> when it was never opened); \<open>None\<close>
  for the whole result is a run that does not return: the group loop that cannot advance,
  or the division by \<^verbatim>\<open>S = 0\<close>. A file's size is read through a signed 64-bit offset, so
  sizes from \<open>2^63\<close> on make \<^verbatim>\<open>get_file_size64\<close> fail; below that no 64-bit sum wraps.
  Failing allocations and writes (codes -6 to -12) are not modelled, nor is the progress
  callback.
\<close>

definition pack_file ::
  "rs_codec \<Rightarrow> bool \<Rightarrow> int \<Rightarrow> int \<Rightarrow> int \<Rightarrow> int \<Rightarrow> byte list \<Rightarrow> (int \<times> byte list option) option" where
  "pack_file rs g_cancel r il_depth slice_bytes pad file =
     (if 2 ^ 63 \<le> length file then Some (-4, Some [])
      else
        (let orig = length file;
             frames = (orig + FRAME_BYTES - 1) div FRAME_BYTES;
             gh = \<lparr>gh_magic = GLOBAL_MAGIC, gh_version = 4, gh_k = K_SHARDS,
                   gh_r = nat r mod 65536, gh_shard_len = SHARD_LEN,
                   gh_pad = nat pad mod 65536, gh_original_size = orig,
                   gh_frame_count = frames, gh_il_depth = nat il_depth mod 65536,
                   gh_slice_bytes = nat slice_bytes mod 65536, gh_reserved = 0\<rparr>;
             D = gh_il_depth gh;
             S = gh_slice_bytes gh
         in if S = 0 then None
            else map_option (\<lambda>fo. (if g_cancel then 1 else 0, Some fo))
                   (pack_groups rs (nat r) D S orig frames g_cancel 0 file (put_rsct_header gh))))"

definition pack_impl ::
  "rs_init \<Rightarrow> bool \<Rightarrow> byte list option \<Rightarrow> bool \<Rightarrow> int \<Rightarrow> int \<Rightarrow> int \<Rightarrow> (int \<times> byte list option) option" where
  "pack_impl init_rs_char g_cancel input out_ok r0 il_depth0 slice_bytes0 =
     (let r = (if r0 \<le> 0 \<or> r0 > int MAX_R then 16 else r0);
          il_depth = (if il_depth0 \<le> 0 then IL_DEPTH_DEFAULT else il_depth0);
          slice_bytes = (if slice_bytes0 \<le> 0 then SLICE_BYTES_DEFAULT else slice_bytes0);
          pad = compute_pad r
      in if pad < 0 then Some (-101, None)
         else case init_rs_char r pad of
           None \<Rightarrow> Some (-1, None)
         | Some rs \<Rightarrow>
            (case input of
               None \<Rightarrow> Some (-2, None)
             | Some file \<Rightarrow>
                 if \<not> out_ok then Some (-3, None)
                 else pack_file rs g_cancel r il_depth slice_bytes pad file))"

definition rs_pack_container :: "rs_init \<Rightarrow> bool \<Rightarrow> byte list option \<Rightarrow> bool \<Rightarrow> int
     \<Rightarrow> (int \<times> byte list option) option" where
  "rs_pack_container init_rs_char g_cancel input out_ok r =
     pack_impl init_rs_char g_cancel input out_ok r IL_DEPTH_DEFAULT SLICE_BYTES_DEFAULT"

definition rs_pack_container_ex :: "rs_init \<Rightarrow> bool \<Rightarrow> byte list option \<Rightarrow> bool \<Rightarrow> int \<Rightarrow> int \<Rightarrow> int
     \<Rightarrow> (int \<times> byte list option) option" where
  "rs_pack_container_ex init_rs_char g_cancel input out_ok r il_depth slice_bytes =
     pack_impl init_rs_char g_cancel input out_ok r il_depth slice_bytes"

section \<open>RS container: unpack\<close>

text \<open>
  \<^verbatim>\<open>find_next_magic\<close> on the unread part of the container: the four-byte window slides by
  one byte until it holds a frame or slice magic. The result is the magic and what is left
  unread behind it.
\<close>

fun find_next_magic :: "byte list \<Rightarrow> (nat \<times> byte list) option" where
  "find_next_magic [] = None"
| "find_next_magic (b # bs) =
     (if length bs < 3 then None
      else if le_value (b # take 3 bs) = FRAME_MAGIC_V4 \<or> le_value (b # take 3 bs) = SLICE_MAGIC_V4
           then Some (le_value (b # take 3 bs), drop 3 bs)
           else find_next_magic bs)"

record frame_buf =
  fb_init :: nat
  fb_data_len :: nat
  fb_data :: "byte list"
  fb_par :: "byte list"
  fb_crcD :: "byte list"
  fb_crcP :: "byte list"
  fb_crc32_data :: nat
  fb_crc32_par :: nat
  fb_crcD_filled_bytes :: nat
  fb_crcP_filled_bytes :: nat

text \<open>
  A slot of the \<^verbatim>\<open>calloc\<close>ed table is all zero, its buffers null (empty here); a slot
  first touched gets zeroed buffers of the region sizes.
\<close>

definition frame_buf_zero :: frame_buf where
  "frame_buf_zero = \<lparr>fb_init = 0, fb_data_len = 0, fb_data = [], fb_par = [], fb_crcD = [],
     fb_crcP = [], fb_crc32_data = 0, fb_crc32_par = 0, fb_crcD_filled_bytes = 0,
     fb_crcP_filled_bytes = 0\<rparr>"

definition frame_buf_alloc :: "nat \<Rightarrow> frame_buf \<Rightarrow> frame_buf" where
  "frame_buf_alloc r fb = fb\<lparr>fb_data := replicate FRAME_BYTES 0, fb_par := replicate (r * SHARD_LEN) 0,
     fb_crcD := replicate (K_SHARDS * 2) 0, fb_crcP := replicate (r * 2) 0\<rparr>"

definition memcpy :: "byte list \<Rightarrow> nat \<Rightarrow> byte list \<Rightarrow> byte list" where
  "memcpy dst pos src = take pos dst @ src @ drop (pos + length src) dst"

text \<open>
  \<^verbatim>\<open>copy_slice_into_frame\<close>. In the last region \<^verbatim>\<open>m = crcP_bytes - soff\<close> is unsigned: with
  \<^verbatim>\<open>soff\<close> beyond the region it wraps and the copy leaves the buffer, for which the model
  has no result.
\<close>

definition copy_slice_into_frame :: "frame_buf \<Rightarrow> nat \<Rightarrow> nat \<Rightarrow> byte list \<Rightarrow> frame_buf option" where
  "copy_slice_into_frame fb r off src =
     (let len = length src;
          par_bytes = r * SHARD_LEN; crcD_bytes = K_SHARDS * 2; crcP_bytes = r * 2;
          c_data = (if off < FRAME_BYTES then min len (FRAME_BYTES - off) else 0);
          fb1 = fb\<lparr>fb_data := memcpy (fb_data fb) off (take c_data src)\<rparr>;
          copied1 = c_data;
          c_par = (if off + copied1 < FRAME_BYTES + par_bytes \<and> copied1 < len \<and> FRAME_BYTES \<le> off + copied1
                   then min (len - copied1) (par_bytes - (off + copied1 - FRAME_BYTES)) else 0);
          fb2 = fb1\<lparr>fb_par := memcpy (fb_par fb1) (off + copied1 - FRAME_BYTES) (take c_par (drop copied1 src))\<rparr>;
          copied2 = copied1 + c_par;
          c_crcD = (if off + copied2 < FRAME_BYTES + par_bytes + crcD_bytes \<and> copied2 < len \<and>
                       FRAME_BYTES + par_bytes \<le> off + copied2
                    then min (len - copied2) (crcD_bytes - (off + copied2 - (FRAME_BYTES + par_bytes))) else 0);
          fb3 = fb2\<lparr>fb_crcD := memcpy (fb_crcD fb2) (off + copied2 - (FRAME_BYTES + par_bytes))
                                   (take c_crcD (drop copied2 src))\<rparr>;
          copied3 = copied2 + c_crcD;
          in4 = (copied3 < len \<and> FRAME_BYTES + par_bytes + crcD_bytes \<le> off + copied3);
          soff = off + copied3 - (FRAME_BYTES + par_bytes + crcD_bytes)
      in if in4 \<and> crcP_bytes < soff then None
         else (let c_crcP = (if in4 then min (len - copied3) (crcP_bytes - soff) else 0);
                   fb4 = fb3\<lparr>fb_crcP := memcpy (fb_crcP fb3) soff (take c_crcP (drop copied3 src))\<rparr>
               in Some (fb4\<lparr>fb_crcD_filled_bytes := fb_crcD_filled_bytes fb4 + c_crcD,
                             fb_crcP_filled_bytes := fb_crcP_filled_bytes fb4 + c_crcP\<rparr>)))"

text \<open>
  The statistics record. \<^verbatim>\<open>ber_est\<close> is kept as the exact quotient of the two counters;
  the \<^verbatim>\<open>double\<close> the program stores is its rounding and is 0.0 exactly when the quotient
  is 0. \<^verbatim>\<open>ser_rs\<close> is never written after the reset.
\<close>

record rs_stats_v1 =
  frames_total :: nat
  slices_total_est :: nat
  slices_ok :: nat
  slices_bad :: nat
  codewords_total :: nat
  symbols_total :: nat
  data_symbols_total :: nat
  corrected_symbols :: nat
  used_erasures_cols :: nat
  rs_fail_columns :: nat
  pad_mode_used :: int
  ser_rs :: rat
  ber_est :: rat

definition rs_stats_reset :: rs_stats_v1 where
  "rs_stats_reset = \<lparr>frames_total = 0, slices_total_est = 0, slices_ok = 0, slices_bad = 0,
     codewords_total = 0, symbols_total = 0, data_symbols_total = 0, corrected_symbols = 0,
     used_erasures_cols = 0, rs_fail_columns = 0, pad_mode_used = 0, ser_rs = 0, ber_est = 0\<rparr>"

type_synonym frame_tab = "nat \<Rightarrow> frame_buf"

datatype 'a step = Continue "byte list" 'a | Break 'a | Trap

text \<open>
  One pass of the scanning loop, for a frame header and for a slice. \<^verbatim>\<open>uint64_t\<close>
  differences are taken modulo \<open>2^64\<close>.
\<close>

definition on_frame_hdr ::
  "nat \<Rightarrow> nat \<Rightarrow> byte list \<Rightarrow> frame_tab \<times> rs_stats_v1 \<Rightarrow> (frame_tab \<times> rs_stats_v1) step" where
  "on_frame_hdr r F s st =
     (if length s < 20 then Break st
      else (let fh = get_frame_hdr FRAME_MAGIC_V4 (take 20 s);
                rest = drop 20 s;
                idx = fh_index fh
            in if idx \<ge> F then Continue rest st
               else if fh_parity_len fh \<noteq> (r * SHARD_LEN) mod 65536 then Continue rest st
               else if fh_data_len fh > FRAME_BYTES then Continue rest st
               else (let fb = fst st idx;
                         fb1 = (if fb_init fb = 0 then (frame_buf_alloc r fb)\<lparr>fb_init := 1\<rparr> else fb)
                     in Continue rest
                          ((fst st)(idx := fb1\<lparr>fb_data_len := fh_data_len fh,
                                                 fb_crc32_data := fh_crc32_data fh,
                                                 fb_crc32_par := fh_crc32_par fh\<rparr>), snd st))))"

definition on_slice ::
  "nat \<Rightarrow> nat \<Rightarrow> nat \<Rightarrow> byte list \<Rightarrow> frame_tab \<times> rs_stats_v1 \<Rightarrow> (frame_tab \<times> rs_stats_v1) step" where
  "on_slice r F orig s st =
     (if length s < 18 then Break st
      else (let sh = get_slice_hdr SLICE_MAGIC_V4 (take 18 s);
                s1 = drop 18 s;
                sz = sh_size sh
            in if sz = 0 then Continue s1 st
               else if length s1 < sz then Break st
               else (let buf = take sz s1; rest = drop sz s1
                     in if crc32_of buf \<noteq> sh_crc32_slice sh
                        then Continue rest (fst st, (snd st)\<lparr>slices_bad := slices_bad (snd st) + 1\<rparr>)
                        else (let stats = (snd st)\<lparr>slices_ok := slices_ok (snd st) + 1\<rparr>
                              in if sh_frame_index sh < F then
                                   (let fb = fst st (sh_frame_index sh);
                                        last_bytes = nat ((int orig - int ((F - 1) * FRAME_BYTES)) mod 2 ^ 64);
                                        fb1 = (if fb_init fb = 0
                                               then (frame_buf_alloc r fb)
                                                      \<lparr>fb_data_len :=
                                                          (if sh_frame_index sh = F - 1
                                                           then (if last_bytes \<le> FRAME_BYTES then last_bytes
                                                                 else FRAME_BYTES) mod 65536
                                                           else FRAME_BYTES),
                                                       fb_init := 2\<rparr>
                                               else fb)
                                    in case copy_slice_into_frame fb1 r (sh_offset sh) buf of
                                         None \<Rightarrow> Trap
                                       | Some fb2 \<Rightarrow> Continue rest ((fst st)(sh_frame_index sh := fb2), stats))
                                 else Continue rest (fst st, stats)))))"

definition scan_step ::
  "nat \<Rightarrow> nat \<Rightarrow> nat \<Rightarrow> byte list \<Rightarrow> frame_tab \<times> rs_stats_v1 \<Rightarrow> (frame_tab \<times> rs_stats_v1) step" where
  "scan_step r F orig s st =
     (case find_next_magic s of
        None \<Rightarrow> Break st
      | Some (magic, s1) \<Rightarrow>
          if magic = FRAME_MAGIC_V4 then on_frame_hdr r F s1 st else on_slice r F orig s1 st)"

lemma find_next_magic_shorter:
  "find_next_magic s = Some (m, s1) \<Longrightarrow> length s1 < length s"
  by (induction s rule: find_next_magic.induct) (auto split: if_splits)

lemma scan_step_shorter:
  assumes "scan_step r F orig s st = Continue s' st'"
  shows "length s' < length s"
proof -
  from assms obtain m s1 where f: "find_next_magic s = Some (m, s1)"
    by (auto simp: scan_step_def split: option.splits)
  have "length s' \<le> length s1"
    using assms f
    by (auto simp: scan_step_def on_frame_hdr_def on_slice_def Let_def split: if_splits option.splits)
  with find_next_magic_shorter [OF f] show ?thesis by simp
qed

function scan_loop ::
  "nat \<Rightarrow> nat \<Rightarrow> nat \<Rightarrow> byte list \<Rightarrow> frame_tab \<times> rs_stats_v1 \<Rightarrow> (frame_tab \<times> rs_stats_v1) option" where
  "scan_loop r F orig s st =
     (case scan_step r F orig s st of
        Break st' \<Rightarrow> Some st'
      | Trap \<Rightarrow> None
      | Continue s' st' \<Rightarrow> scan_loop r F orig s' st')"
  by pat_completeness auto
termination
  by (relation "measure (\<lambda>(r, F, orig, s, st). length s)") (auto dest: scan_step_shorter)

declare scan_loop.simps [simp del]

text \<open>
  The erasure positions of a frame. \<^verbatim>\<open>eras_data\<close> and \<^verbatim>\<open>eras_par\<close> are arrays of 192 and
  63 \<^verbatim>\<open>int\<close>s filled through the counters \<^verbatim>\<open>nd\<close> and \<^verbatim>\<open>np\<close>; the model keeps the filled
  part and has no result once a store falls outside the array. Entry \<open>j\<close> of a CRC-16 table
  is read from the two bytes it occupies.
\<close>

definition store_next :: "nat \<Rightarrow> int list option \<Rightarrow> int \<Rightarrow> int list option" where
  "store_next cap a v =
     (case a of None \<Rightarrow> None | Some xs \<Rightarrow> if length xs < cap then Some (xs @ [v]) else None)"

definition has_crc_tables :: "frame_buf \<Rightarrow> nat \<Rightarrow> bool" where
  "has_crc_tables fb r =
     (fb_crcD_filled_bytes fb \<ge> K_SHARDS * 2 \<and> fb_crcP_filled_bytes fb \<ge> r * 2)"

definition crcD_mismatch :: "frame_buf \<Rightarrow> nat \<Rightarrow> bool" where
  "crcD_mismatch fb j = (crc16_of (shard (fb_data fb) j) \<noteq> field (2 * j) 2 (fb_crcD fb))"

definition crcP_mismatch :: "frame_buf \<Rightarrow> nat \<Rightarrow> bool" where
  "crcP_mismatch fb j = (crc16_of (shard (fb_par fb) j) \<noteq> field (2 * j) 2 (fb_crcP fb))"

definition eras_data_of :: "frame_buf \<Rightarrow> nat \<Rightarrow> int list option" where
  "eras_data_of fb r =
     (let dlen = (if fb_data_len fb > FRAME_BYTES then FRAME_BYTES else fb_data_len fb);
          full2 = dlen div SHARD_LEN;
          rem2 = dlen mod SHARD_LEN;
          cutoff2 = full2 + (if rem2 \<noteq> 0 then 1 else 0);
          a1 = (if dlen < FRAME_BYTES
                then fold (\<lambda>j a. store_next K_SHARDS a (int j)) [cutoff2..<K_SHARDS] (Some [])
                else Some []);
          a2 = (if dlen < FRAME_BYTES \<and> rem2 \<noteq> 0 then store_next K_SHARDS a1 (int full2) else a1)
      in if has_crc_tables fb r
         then fold (\<lambda>j a. if crcD_mismatch fb j then store_next K_SHARDS a (int j) else a) [0..<K_SHARDS] a2
         else a2)"

definition eras_par_of :: "frame_buf \<Rightarrow> nat \<Rightarrow> int list option" where
  "eras_par_of fb r =
     (if has_crc_tables fb r
      then fold (\<lambda>j a. if crcP_mismatch fb j then store_next MAX_R a (int (K_SHARDS + j)) else a) [0..<r]
             (Some [])
      else Some [])"

text \<open>The two loops that copy into \<^verbatim>\<open>erasures\<close> while \<^verbatim>\<open>n_eras < r\<close>.\<close>

primrec fill_erasures :: "nat \<Rightarrow> int list \<Rightarrow> int list \<Rightarrow> int list" where
  "fill_erasures r [] e = e"
| "fill_erasures r (x # xs) e = (if length e < r then fill_erasures r xs (e @ [x]) else e)"

definition frame_erasures :: "frame_buf \<Rightarrow> nat \<Rightarrow> int list option" where
  "frame_erasures fb r =
     (case eras_data_of fb r of
        None \<Rightarrow> None
      | Some eras_data \<Rightarrow>
          (case eras_par_of fb r of
             None \<Rightarrow> None
           | Some eras_par \<Rightarrow> Some (fill_erasures r eras_par (fill_erasures r eras_data []))))"

text \<open>
  Decoding one column. The decoder may store the positions it corrected into the erasure
  array; the next column is handed the first \<^verbatim>\<open>n_eras\<close> entries of that array again.
\<close>

definition column :: "byte list \<Rightarrow> nat \<Rightarrow> nat \<Rightarrow> byte list" where
  "column buf n i = map (\<lambda>j. buf ! (j * SHARD_LEN + i)) [0..<n]"

definition set_column :: "byte list \<Rightarrow> nat \<Rightarrow> (nat \<Rightarrow> byte) \<Rightarrow> byte list" where
  "set_column buf i v = fold (\<lambda>j b. b[j * SHARD_LEN + i := v j]) [0..<K_SHARDS] buf"

definition decode_column ::
  "rs_codec \<Rightarrow> int \<Rightarrow> frame_tab \<Rightarrow> nat \<Rightarrow> byte list \<Rightarrow> nat \<Rightarrow> nat \<Rightarrow> nat
     \<Rightarrow> byte list \<times> rs_stats_v1 \<times> int list \<Rightarrow> byte list \<times> rs_stats_v1 \<times> int list" where
  "decode_column rs pad_mode tab idx par r n_eras i st =
     (case st of (data, stats, erasures) \<Rightarrow>
        (case decode_rs_char rs (column data K_SHARDS i @ column par r i) erasures of
           (ret, code, erasures') \<Rightarrow>
             (let stats1 = (if n_eras > 0
                            then stats\<lparr>used_erasures_cols := used_erasures_cols stats + 1\<rparr> else stats)
              in if ret < 0
                 then (if pad_mode = 1 then set_column data i (\<lambda>j. 0)
                       else if pad_mode = 2
                       then (if idx > 0 \<and> fb_init (tab (idx - 1)) \<noteq> 0 \<and> fb_data (tab (idx - 1)) \<noteq> []
                             then set_column data i (\<lambda>j. fb_data (tab (idx - 1)) ! (j * SHARD_LEN + i))
                             else set_column data i (\<lambda>j. 0))
                       else data,
                       stats1\<lparr>rs_fail_columns := rs_fail_columns stats1 + 1\<rparr>,
                       take n_eras erasures')
                 else (set_column data i (\<lambda>j. code ! j),
                       stats1\<lparr>corrected_symbols := (corrected_symbols stats1 + nat ret) mod 2 ^ 64\<rparr>,
                       take n_eras erasures'))))"

record dec_state =
  d_tab :: frame_tab
  d_stats :: rs_stats_v1
  d_written :: nat
  d_total_written_bytes :: nat
  d_residual_bad_bytes_est :: nat
  d_out :: "byte list"

text \<open>
  One pass of the loop over the frames. \<open>residual_step\<close> is
  \<^verbatim>\<open>(uint64_t)((double)SHARD_LEN * g_residual_coeff)\<close>.
\<close>

definition decode_frame ::
  "rs_codec \<Rightarrow> int \<Rightarrow> nat \<Rightarrow> nat \<Rightarrow> nat \<Rightarrow> nat \<Rightarrow> dec_state \<Rightarrow> dec_state option" where
  "decode_frame rs pad_mode r orig residual_step idx st =
     (let fb = d_tab st idx;
          to_write = (if orig - d_written st \<ge> FRAME_BYTES then FRAME_BYTES else orig - d_written st)
      in if fb_init fb = 0
         then Some (st\<lparr>d_written := d_written st + to_write,
                       d_total_written_bytes := d_total_written_bytes st + to_write,
                       d_out := d_out st @ replicate to_write 0\<rparr>)
         else
           (case frame_erasures fb r of
              None \<Rightarrow> None
            | Some erasures \<Rightarrow>
                (case fold (decode_column rs pad_mode (d_tab st) idx (fb_par fb) r (length erasures))
                        [0..<SHARD_LEN] (fb_data fb, d_stats st, erasures) of
                   (data, stats, erasures') \<Rightarrow>
                     (let fb' = fb\<lparr>fb_data := data\<rparr>;
                          residual =
                            (if has_crc_tables fb r
                             then fold (\<lambda>j n. if crcD_mismatch fb' j then (n + residual_step) mod 2 ^ 64 else n)
                                    [0..<K_SHARDS] (d_residual_bad_bytes_est st)
                             else d_residual_bad_bytes_est st)
                      in Some \<lparr>d_tab = (d_tab st)(idx := fb'), d_stats = stats,
                               d_written = d_written st + to_write,
                               d_total_written_bytes = d_total_written_bytes st + to_write,
                               d_residual_bad_bytes_est = residual,
                               d_out = d_out st @ take to_write data\<rparr>))))"

primrec decode_frames ::
  "rs_codec \<Rightarrow> int \<Rightarrow> nat \<Rightarrow> nat \<Rightarrow> nat \<Rightarrow> nat list \<Rightarrow> dec_state \<Rightarrow> dec_state option" where
  "decode_frames rs pad_mode r orig residual_step [] st = Some st"
| "decode_frames rs pad_mode r orig residual_step (idx # idxs) st =
     (case decode_frame rs pad_mode r orig residual_step idx st of
        None \<Rightarrow> None
      | Some st' \<Rightarrow> decode_frames rs pad_mode r orig residual_step idxs st')"

text \<open>
  \<open>rs_unpack_internal\<close>. The arguments stand for the codec library, the cancel flag, the
  residual coefficient, the container file's bytes (\<open>None\<close> when it cannot be opened),
  whether the output file can be opened, and the padding mode. The result is the return
  code, the bytes of the output file (\<open>None\<close> when it was never opened) and the statistics;
  there is no result when a copy or a store leaves its buffer. Failing allocations and
  writes (codes -8 to -10) are not modelled, nor is the progress callback.
\<close>

definition rs_unpack_internal ::
  "rs_init \<Rightarrow> bool \<Rightarrow> rat \<Rightarrow> byte list option \<Rightarrow> bool \<Rightarrow> int
     \<Rightarrow> (int \<times> byte list option \<times> rs_stats_v1) option" where
  "rs_unpack_internal init_rs_char g_cancel g_residual_coeff container out_ok pad_mode =
     (case container of
        None \<Rightarrow> Some (-1, None, rs_stats_reset)
      | Some fi \<Rightarrow>
          if \<not> out_ok then Some (-7, None, rs_stats_reset)
          else if length fi < 36 then Some (-2, Some [], rs_stats_reset)
          else
            (let gh = get_rsct_header (take 36 fi); r = gh_r gh
             in if gh_magic gh \<noteq> GLOBAL_MAGIC \<or> gh_version gh \<noteq> 4 then Some (-3, Some [], rs_stats_reset)
                else if gh_k gh \<noteq> K_SHARDS \<or> gh_shard_len gh \<noteq> SHARD_LEN
                then Some (-4, Some [], rs_stats_reset)
                else if r = 0 \<or> r > MAX_R then Some (-5, Some [], rs_stats_reset)
                else
                  (case init_rs_char (int r) (int (gh_pad gh)) of
                     None \<Rightarrow> Some (-6, Some [], rs_stats_reset)
                   | Some rs \<Rightarrow>
                       (let PAY = payload_len_bytes r;
                            F = gh_frame_count gh;
                            S = gh_slice_bytes gh;
                            stats0 = rs_stats_reset
                              \<lparr>frames_total := F, pad_mode_used := pad_mode,
                               codewords_total := (SHARD_LEN * F) mod 2 ^ 64,
                               symbols_total := ((K_SHARDS + r) * ((SHARD_LEN * F) mod 2 ^ 64)) mod 2 ^ 64,
                               data_symbols_total := (K_SHARDS * ((SHARD_LEN * F) mod 2 ^ 64)) mod 2 ^ 64,
                               slices_total_est :=
                                 (if S \<noteq> 0 then (F * ((PAY + S - 1) div S)) mod 2 ^ 64 else 0)\<rparr>
                        in case (if g_cancel then Some (\<lambda>idx. frame_buf_zero, stats0)
                                 else scan_loop r F (gh_original_size gh) (drop 36 fi)
                                        (\<lambda>idx. frame_buf_zero, stats0)) of
                             None \<Rightarrow> None
                           | Some (tab, stats1) \<Rightarrow>
                               (case decode_frames rs pad_mode r (gh_original_size gh)
                                       (nat \<lfloor>rat_of_nat SHARD_LEN * g_residual_coeff\<rfloor>)
                                       (if g_cancel then [] else [0..<F])
                                       \<lparr>d_tab = tab, d_stats = stats1, d_written = 0,
                                        d_total_written_bytes = 0, d_residual_bad_bytes_est = 0,
                                        d_out = []\<rparr> of
                                  None \<Rightarrow> None
                                | Some st \<Rightarrow>
                                    Some (if g_cancel then 1 else 0, Some (d_out st),
                                          (d_stats st)
                                            \<lparr>ber_est :=
                                               (if d_total_written_bytes st > 0 \<and>
                                                   d_residual_bad_bytes_est st > 0
                                                then rat_of_nat (d_residual_bad_bytes_est st) /
                                                     rat_of_nat (d_total_written_bytes st)
                                                else 0)\<rparr>))))))"

definition rs_unpack_container ::
  "rs_init \<Rightarrow> bool \<Rightarrow> rat \<Rightarrow> byte list option \<Rightarrow> bool \<Rightarrow> (int \<times> byte list option \<times> rs_stats_v1) option" where
  "rs_unpack_container init_rs_char g_cancel g_residual_coeff container out_ok =
     rs_unpack_internal init_rs_char g_cancel g_residual_coeff container out_ok 0"

definition rs_unpack_container_ex ::
  "rs_init \<Rightarrow> bool \<Rightarrow> rat \<Rightarrow> byte list option \<Rightarrow> bool \<Rightarrow> int
     \<Rightarrow> (int \<times> byte list option \<times> rs_stats_v1) option" where
  "rs_unpack_container_ex init_rs_char g_cancel g_residual_coeff container out_ok pad_mode =
     rs_unpack_internal init_rs_char g_cancel g_residual_coeff container out_ok
       (if pad_mode < 0 \<or> pad_mode > 2 then 0 else pad_mode)"

section \<open>The erasure list of a frame\<close>

text \<open>
  The list after the claim's words: the data shards that are candidates, in increasing
  index, then the candidate parity shards, in increasing index, cut to \<open>r\<close> entries. A data
  shard is a candidate when it lies at or behind the end of the frame's data or its CRC-16
  mismatches, a parity shard when its CRC-16 mismatches.
\<close>

definition spec_erasure_list :: "frame_buf \<Rightarrow> nat \<Rightarrow> int list" where
  "spec_erasure_list fb r =
     take r (map int (filter (\<lambda>j. (fb_data_len fb < FRAME_BYTES \<and> fb_data_len fb div SHARD_LEN \<le> j) \<or>
                                    (has_crc_tables fb r \<and> crcD_mismatch fb j)) [0..<K_SHARDS]) @
             map (\<lambda>j. int (K_SHARDS + j)) (filter (\<lambda>j. has_crc_tables fb r \<and> crcP_mismatch fb j) [0..<r]))"

text \<open>
  The entries in the order in which the code stores them: the shards behind the data, the
  boundary shard, the data shards with a CRC-16 mismatch, the parity shards with one.
\<close>

definition listed_data_erasures :: "frame_buf \<Rightarrow> nat \<Rightarrow> int list" where
  "listed_data_erasures fb r =
     (let dlen = min (fb_data_len fb) FRAME_BYTES
      in (if dlen < FRAME_BYTES
          then map int [dlen div SHARD_LEN + (if dlen mod SHARD_LEN \<noteq> 0 then 1 else 0)..<K_SHARDS] @
               (if dlen mod SHARD_LEN \<noteq> 0 then [int (dlen div SHARD_LEN)] else [])
          else []) @
         (if has_crc_tables fb r then map int (filter (crcD_mismatch fb) [0..<K_SHARDS]) else []))"

definition listed_parity_erasures :: "frame_buf \<Rightarrow> nat \<Rightarrow> int list" where
  "listed_parity_erasures fb r =
     (if has_crc_tables fb r
      then map (\<lambda>j. int (K_SHARDS + j)) (filter (crcP_mismatch fb) [0..<r]) else [])"

definition header_only_frame :: frame_buf where
  "header_only_frame = (frame_buf_alloc 16 frame_buf_zero)\<lparr>fb_init := 1, fb_data_len := 12200\<rparr>"

lemma store_next_None [simp]: "store_next cap None v = None"
  by (simp add: store_next_def)

lemma fold_store_next_None [simp]:
  "fold (\<lambda>j a. if P j then store_next cap a (f j) else a) js None = None"
  by (induction js) simp_all

lemma fold_store_next:
  assumes "length xs \<le> cap"
  shows "fold (\<lambda>j a. if P j then store_next cap a (f j) else a) js (Some xs) =
     (if length xs + length (filter P js) \<le> cap then Some (xs @ map f (filter P js)) else None)"
  using assms
proof (induction js arbitrary: xs)
  case Nil
  then show ?case by simp
next
  case (Cons j js)
  show ?case
  proof (cases "P j")
    case False
    then show ?thesis using Cons.IH [OF Cons.prems] by simp
  next
    case True
    show ?thesis
    proof (cases "length xs < cap")
      case True
      then have "length (xs @ [f j]) \<le> cap" by simp
      from Cons.IH [OF this] show ?thesis using \<open>P j\<close> True by (simp add: store_next_def)
    next
      case False
      then show ?thesis using \<open>P j\<close> by (simp add: store_next_def)
    qed
  qed
qed

lemma fold_store_next_all:
  "fold (\<lambda>j a. store_next cap a (f j)) js (Some xs) =
     (if length xs + length js \<le> cap then Some (xs @ map f js) else None)"
  if "length xs \<le> cap"
  using fold_store_next [OF that, of "\<lambda>j. True" f js] by simp

lemma fill_erasures_take: "fill_erasures r xs e = e @ take (r - length e) xs"
proof (induction xs arbitrary: e)
  case Nil
  show ?case by simp
next
  case (Cons x xs)
  show ?case
  proof (cases "length e < r")
    case True
    then have "r - length e = Suc (r - Suc (length e))" by arith
    then have "take (r - length e) (x # xs) = x # take (r - Suc (length e)) xs"
      by simp
    then show ?thesis using True Cons.IH [of "e @ [x]"] by simp
  next
    case False
    then show ?thesis by simp
  qed
qed

lemma eras_data_of_listed:
  "eras_data_of fb r =
     (if length (listed_data_erasures fb r) \<le> K_SHARDS then Some (listed_data_erasures fb r) else None)"
proof -
  define dlen where "dlen = min (fb_data_len fb) FRAME_BYTES"
  have d: "(if fb_data_len fb > FRAME_BYTES then FRAME_BYTES else fb_data_len fb) = dlen"
    by (simp add: dlen_def min_def)
  define cutoff2 where "cutoff2 = dlen div SHARD_LEN + (if dlen mod SHARD_LEN \<noteq> 0 then 1 else 0)"
  define a1 where "a1 = (if dlen < FRAME_BYTES
                then fold (\<lambda>j a. store_next K_SHARDS a (int j)) [cutoff2..<K_SHARDS] (Some [])
                else Some [])"
  define a2 where "a2 = (if dlen < FRAME_BYTES \<and> dlen mod SHARD_LEN \<noteq> 0
                         then store_next K_SHARDS a1 (int (dlen div SHARD_LEN)) else a1)"
  define trail where "trail = (if dlen < FRAME_BYTES
          then map int [cutoff2..<K_SHARDS] @
               (if dlen mod SHARD_LEN \<noteq> 0 then [int (dlen div SHARD_LEN)] else [])
          else [])"
  have c: "dlen mod SHARD_LEN \<noteq> 0 \<Longrightarrow> 0 < cutoff2" by (simp add: cutoff2_def)
  have k: "0 < K_SHARDS" by (simp add: K_SHARDS_def)
  have a1: "a1 = Some (if dlen < FRAME_BYTES then map int [cutoff2..<K_SHARDS] else [])"
    by (simp add: a1_def fold_store_next_all)
  have a2: "a2 = Some trail"
    using c k by (auto simp: a2_def a1 trail_def store_next_def)
  have lt: "length trail \<le> K_SHARDS"
    using c k by (auto simp: trail_def)
  have e: "eras_data_of fb r =
      (if has_crc_tables fb r
       then fold (\<lambda>j a. if crcD_mismatch fb j then store_next K_SHARDS a (int j) else a) [0..<K_SHARDS] a2
       else a2)"
    unfolding eras_data_of_def d Let_def a2_def a1_def cutoff2_def by (rule refl)
  have l: "listed_data_erasures fb r =
      trail @ (if has_crc_tables fb r then map int (filter (crcD_mismatch fb) [0..<K_SHARDS]) else [])"
    unfolding listed_data_erasures_def dlen_def [symmetric] Let_def trail_def cutoff2_def by (rule refl)
  show ?thesis
    unfolding e l a2 using lt by (simp add: fold_store_next)
qed

lemma eras_par_of_listed:
  "eras_par_of fb r =
     (if length (listed_parity_erasures fb r) \<le> MAX_R then Some (listed_parity_erasures fb r) else None)"
  by (simp add: eras_par_of_def listed_parity_erasures_def fold_store_next)

lemma length_listed_parity: "length (listed_parity_erasures fb r) \<le> r"
proof -
  have "length (filter (crcP_mismatch fb) [0..<r]) \<le> length [0..<r]" by (rule length_filter_le)
  then show ?thesis by (simp add: listed_parity_erasures_def)
qed

lemma frame_erasures_listed:
  assumes "length (listed_data_erasures fb r) \<le> K_SHARDS" and "r \<le> MAX_R"
  shows "frame_erasures fb r = Some (take r (listed_data_erasures fb r @ listed_parity_erasures fb r))"
proof -
  have "length (listed_parity_erasures fb r) \<le> MAX_R"
    using length_listed_parity [of fb r] assms(2) by simp
  then show ?thesis
    using assms(1)
    by (simp add: frame_erasures_def eras_data_of_listed eras_par_of_listed fill_erasures_take min_def)
qed

lemma header_only_listed:
  "listed_data_erasures header_only_frame 16 = [191, 190] \<and>
   listed_parity_erasures header_only_frame 16 = []"
  by (simp add: listed_data_erasures_def listed_parity_erasures_def header_only_frame_def
      frame_buf_alloc_def frame_buf_zero_def has_crc_tables_def FRAME_BYTES_def K_SHARDS_def
      SHARD_LEN_def upt_rec [of 191])

lemma filter_ge_upt: "a \<le> n \<Longrightarrow> filter (\<lambda>j. a \<le> j) [0..<n] = [a..<n]"
proof (induction n)
  case 0
  then show ?case by simp
next
  case (Suc n)
  show ?case
  proof (cases "a \<le> n")
    case True
    then show ?thesis using Suc.IH by simp
  next
    case False
    then have "a = Suc n" using Suc.prems by simp
    moreover have "filter (\<lambda>j. Suc n \<le> j) [0..<n] = []" by (simp add: filter_empty_conv)
    ultimately show ?thesis by simp
  qed
qed

text \<open>
  Claim C3, as stated, fails: the boundary shard is stored behind the shards that follow
  it. For a frame of which only the header arrived, with \<^verbatim>\<open>data_len = 12200\<close> and
  \<open>r = 16\<close>, the decoder is handed 191, 190 where the claim has 190, 191.
\<close>

theorem erasure_order_counterexample:
  "frame_erasures header_only_frame 16 = Some [191, 190] \<and>
   spec_erasure_list header_only_frame 16 = [190, 191] \<and>
   frame_erasures header_only_frame 16 \<noteq> Some (spec_erasure_list header_only_frame 16)"
proof -
  have a: "frame_erasures header_only_frame 16 = Some [191, 190]"
    using frame_erasures_listed [of header_only_frame 16]
    by (simp add: header_only_listed K_SHARDS_def MAX_R_def)
  have "filter (\<lambda>j. (190::nat) \<le> j) [0..<192] = [190..<192]" by (rule filter_ge_upt) simp
  then have b: "spec_erasure_list header_only_frame 16 = [190, 191]"
    by (simp add: spec_erasure_list_def header_only_frame_def frame_buf_alloc_def frame_buf_zero_def
        has_crc_tables_def FRAME_BYTES_def K_SHARDS_def SHARD_LEN_def upt_rec [of 190] upt_rec [of 191])
  show ?thesis by (simp add: a b)
qed

text \<open>
  Claim C3, amended. For every frame decoded by unpack with \<open>r\<close> up to 63, the erasure list
  built for the RS decoder is the first \<open>r\<close> entries of: the shards behind the frame's data
  in increasing index, then the boundary shard if \<^verbatim>\<open>data_len\<close> is not a multiple of 64,
  then the data shards whose CRC-16 mismatches in increasing index, then the parity shards
  whose CRC-16 mismatches in increasing index (the last two groups only when both CRC-16
  tables were filled); this holds as long as the data entries listed number at most 192.
  So when more than \<open>r\<close> are listed, parity erasures are dropped first, then the data
  entries stored last.
\<close>

theorem erasure_list_order:
  assumes "length (listed_data_erasures fb r) \<le> K_SHARDS" and "r \<le> MAX_R"
  shows "frame_erasures fb r = Some (take r (listed_data_erasures fb r @ listed_parity_erasures fb r))"
  using assms by (rule frame_erasures_listed)

theorem erasure_list_order_witness:
  "length (listed_data_erasures header_only_frame 16) \<le> K_SHARDS \<and> (16::nat) \<le> MAX_R \<and>
   frame_erasures header_only_frame 16 = Some [191, 190]"
proof -
  have h: "length (listed_data_erasures header_only_frame 16) \<le> K_SHARDS" "(16::nat) \<le> MAX_R"
    by (simp_all add: header_only_listed K_SHARDS_def MAX_R_def)
  from erasure_list_order [OF h] show ?thesis
    using h by (simp add: header_only_listed)
qed

text \<open>
  Claim C9. Whatever \<^verbatim>\<open>rs_pack_container_ex\<close> is given, it behaves as the call in which
  every \<open>r\<close> outside 1..63 is replaced by 16, every \<open>il_depth \<le> 0\<close> by 16 and every
  \<open>slice_bytes \<le> 0\<close> by 512: the two runs end with the same return code and the same
  container bytes. No parameter value is rejected: the code -101 is never returned.
\<close>

theorem pack_replaces_out_of_range_parameters:
  "rs_pack_container_ex init_rs_char g_cancel input out_ok r il_depth slice_bytes =
   rs_pack_container_ex init_rs_char g_cancel input out_ok
     (if r \<le> 0 \<or> 63 < r then 16 else r)
     (if il_depth \<le> 0 then 16 else il_depth)
     (if slice_bytes \<le> 0 then 512 else slice_bytes) \<and>
   (\<forall>c. rs_pack_container_ex init_rs_char g_cancel input out_ok r il_depth slice_bytes
          \<noteq> Some (-101, c))"
proof -
  let ?r = "if r \<le> 0 \<or> 63 < r then 16 else r"
  let ?il = "if il_depth \<le> 0 then 16 else il_depth"
  let ?sb = "if slice_bytes \<le> 0 then 512 else slice_bytes"
  have e1: "(if ?r \<le> 0 \<or> ?r > int MAX_R then 16 else ?r) = (if r \<le> 0 \<or> r > int MAX_R then 16 else r)"
    by (simp add: MAX_R_def)
  have e2: "(if ?il \<le> 0 then IL_DEPTH_DEFAULT else ?il) = (if il_depth \<le> 0 then IL_DEPTH_DEFAULT else il_depth)"
    by (simp add: IL_DEPTH_DEFAULT_def)
  have e3: "(if ?sb \<le> 0 then SLICE_BYTES_DEFAULT else ?sb)
            = (if slice_bytes \<le> 0 then SLICE_BYTES_DEFAULT else slice_bytes)"
    by (simp add: SLICE_BYTES_DEFAULT_def)
  have norm: "pack_impl init_rs_char g_cancel input out_ok r il_depth slice_bytes =
     pack_impl init_rs_char g_cancel input out_ok ?r ?il ?sb"
    unfolding pack_impl_def e1 e2 e3 by (rule refl)
  have pad: "\<not> compute_pad (if r \<le> 0 \<or> r > int MAX_R then 16 else r) < 0"
    by (simp add: compute_pad_def K_SHARDS_def MAX_R_def)
  have pf: "pack_file rs g_cancel R il sb p f \<noteq> Some (-101, c)" for rs R il sb p f c
    by (auto simp: pack_file_def Let_def)
  have "pack_impl init_rs_char g_cancel input out_ok r il_depth slice_bytes \<noteq> Some (-101, c)" for c
    using pad pf unfolding pack_impl_def Let_def
    by (simp split: option.splits)
  with norm show ?thesis by (simp add: rs_pack_container_ex_def)
qed

theorem pack_replaces_out_of_range_parameters_witness:
  "rs_pack_container_ex (\<lambda>nroots pad. None) False (Some [0x41]) True 64 0 (-5) =
   rs_pack_container_ex (\<lambda>nroots pad. None) False (Some [0x41]) True 16 16 512 \<and>
   rs_pack_container_ex (\<lambda>nroots pad. None) False (Some [0x41]) True 64 0 (-5) \<noteq> Some (-101, None)"
proof -
  note t = pack_replaces_out_of_range_parameters
             [of "\<lambda>nroots pad. None" False "Some [0x41]" True 64 0 "-5"]
  have a: "rs_pack_container_ex (\<lambda>nroots pad. None) False (Some [0x41]) True 64 0 (-5) =
           rs_pack_container_ex (\<lambda>nroots pad. None) False (Some [0x41]) True 16 16 512"
    using t [THEN conjunct1] by simp
  have b: "rs_pack_container_ex (\<lambda>nroots pad. None) False (Some [0x41]) True 64 0 (-5) \<noteq> Some (-101, None)"
    using t [THEN conjunct2] by (rule spec)
  from a b show ?thesis by (rule conjI)
qed

end
